theory Spec2Isabelle
  imports Main "HOL-Library.Code_Target_Nat" "HOL-Library.Sublist"
begin

section \<open>Text\<close>

text \<open>
  A Python \<^verbatim>\<open>str\<close> is a sequence of Unicode code points; it is modelled as a list of
  natural numbers, so that \<^verbatim>\<open>len\<close> and slicing count code points as Python does.
  \<open>ascii\<close> turns an ASCII literal into such a list.
\<close>

type_synonym pystr = "nat list"

definition ascii :: "string \<Rightarrow> pystr" where
  "ascii s = map of_char s"

datatype item = Ch nat | Rng nat nat | Digit | Space

text \<open>
  For code points below 128 the character tables used by \<^verbatim>\<open>re\<close> and by the string
  methods are written out below. For the other code points Python consults its Unicode
  database, which is not part of the repository: its answers are a parameter of the model.
  \<^item> \<open>uni_word\<close>: is the code point alphanumeric (\<^verbatim>\<open>\w\<close>, hence \<^verbatim>\<open>\b\<close>);
  \<^item> \<open>uni_space\<close>: is it whitespace (\<^verbatim>\<open>\s\<close>, \<^verbatim>\<open>str.strip\<close>);
  \<^item> \<open>uni_digit\<close>: is it a decimal digit (\<^verbatim>\<open>\d\<close>);
  \<^item> \<open>uni_caseless\<close>: does it match a literal or a range under \<^verbatim>\<open>re.IGNORECASE\<close>
    although it is not the literal and not in the range;
  \<^item> \<open>uni_lower\<close>, \<open>uni_upper\<close>: \<^verbatim>\<open>str.lower\<close> and \<^verbatim>\<open>str.upper\<close> of a string that is
    not pure ASCII.
\<close>

record unicode_db =
  uni_word :: "nat \<Rightarrow> bool"
  uni_space :: "nat \<Rightarrow> bool"
  uni_digit :: "nat \<Rightarrow> bool"
  uni_caseless :: "item \<Rightarrow> nat \<Rightarrow> bool"
  uni_lower :: "pystr \<Rightarrow> pystr"
  uni_upper :: "pystr \<Rightarrow> pystr"

text \<open>The line boundaries of \<^verbatim>\<open>str.splitlines\<close>; none of them is a word character.\<close>

definition is_linebreak :: "nat \<Rightarrow> bool" where
  "is_linebreak c = ((10 \<le> c \<and> c \<le> 13) \<or> (28 \<le> c \<and> c \<le> 30) \<or> c = 133 \<or> c = 8232 \<or> c = 8233)"

definition ascii_alnum :: "nat \<Rightarrow> bool" where
  "ascii_alnum c = ((48 \<le> c \<and> c \<le> 57) \<or> (65 \<le> c \<and> c \<le> 90) \<or> (97 \<le> c \<and> c \<le> 122))"

definition ascii_space :: "nat \<Rightarrow> bool" where
  "ascii_space c = ((9 \<le> c \<and> c \<le> 13) \<or> (28 \<le> c \<and> c \<le> 32))"

definition is_word :: "unicode_db \<Rightarrow> nat \<Rightarrow> bool" where
  "is_word U c = (if c < 128 then ascii_alnum c \<or> c = 95 else \<not> is_linebreak c \<and> uni_word U c)"

definition is_space :: "unicode_db \<Rightarrow> nat \<Rightarrow> bool" where
  "is_space U c = (if c < 128 then ascii_space c else uni_space U c)"

definition ascii_lower :: "nat \<Rightarrow> nat" where
  "ascii_lower c = (if 65 \<le> c \<and> c \<le> 90 then c + 32 else c)"

definition ascii_upper :: "nat \<Rightarrow> nat" where
  "ascii_upper c = (if 97 \<le> c \<and> c \<le> 122 then c - 32 else c)"

definition is_ascii :: "pystr \<Rightarrow> bool" where
  "is_ascii s = list_all (\<lambda>c. c < 128) s"

definition py_lower :: "unicode_db \<Rightarrow> pystr \<Rightarrow> pystr" where
  "py_lower U s = (if is_ascii s then map ascii_lower s else uni_lower U s)"

definition py_upper :: "unicode_db \<Rightarrow> pystr \<Rightarrow> pystr" where
  "py_upper U s = (if is_ascii s then map ascii_upper s else uni_upper U s)"

definition strip :: "unicode_db \<Rightarrow> pystr \<Rightarrow> pystr" where
  "strip U s = rev (dropWhile (is_space U) (rev (dropWhile (is_space U) s)))"

text \<open>
  \<^verbatim>\<open>str.splitlines()\<close>: a carriage return followed by a line feed is one boundary, and
  a boundary at the very end opens no further line.
\<close>

fun splitlines_from :: "pystr \<Rightarrow> pystr \<Rightarrow> pystr list" where
  "splitlines_from cur [] = (if cur = [] then [] else [cur])"
| "splitlines_from cur (c # cs) =
     (if c = 13 then
        (case cs of
           d # ds \<Rightarrow> if d = 10 then cur # splitlines_from [] ds else cur # splitlines_from [] cs
         | [] \<Rightarrow> cur # splitlines_from [] cs)
      else if is_linebreak c then cur # splitlines_from [] cs
      else splitlines_from (cur @ [c]) cs)"

definition splitlines :: "pystr \<Rightarrow> pystr list" where
  "splitlines s = splitlines_from [] s"

fun join :: "pystr \<Rightarrow> pystr list \<Rightarrow> pystr" where
  "join sep [] = []"
| "join sep [x] = x"
| "join sep (x # y # ys) = x @ sep @ join sep (y # ys)"

section \<open>Regular expressions\<close>

text \<open>
  The patterns of the program use literals, character sets, \<^verbatim>\<open>\b\<close>, concatenation,
  alternation and greedy repetition \<^verbatim>\<open>{lo,hi}\<close> (\<open>None\<close> for no upper bound).
\<close>

datatype regex = Lit pystr | Set "item list" | WordB
  | Seq regex regex | Alt regex regex | Rep nat "nat option" regex

text \<open>
  Does the code point \<open>x\<close> match an item of a character set (a literal is a set of one
  item)? Without \<^verbatim>\<open>re.IGNORECASE\<close> a literal matches itself and a range its members.
  With it, an ASCII \<open>x\<close> also matches when its lower-case or upper-case form does. The
  literals and ranges of this program are ASCII.
\<close>

fun item_match :: "unicode_db \<Rightarrow> bool \<Rightarrow> item \<Rightarrow> nat \<Rightarrow> bool" where
  "item_match U ic (Ch c) x =
     (x = c \<or> (ic \<and> (if x < 128 then ascii_lower x = ascii_lower c else uni_caseless U (Ch c) x)))"
| "item_match U ic (Rng a b) x =
     ((a \<le> x \<and> x \<le> b) \<or>
      (ic \<and> (if x < 128
             then (a \<le> ascii_lower x \<and> ascii_lower x \<le> b) \<or> (a \<le> ascii_upper x \<and> ascii_upper x \<le> b)
             else uni_caseless U (Rng a b) x)))"
| "item_match U ic Digit x = (if x < 128 then 48 \<le> x \<and> x \<le> 57 else uni_digit U x)"
| "item_match U ic Space x = is_space U x"

text \<open>
  \<^verbatim>\<open>\b\<close> holds at position \<open>i\<close> when exactly one of the characters before and after
  the position is a word character; the two ends of the string count as non-word.
\<close>

definition at_boundary :: "unicode_db \<Rightarrow> pystr \<Rightarrow> nat \<Rightarrow> bool" where
  "at_boundary U s i =
     ((0 < i \<and> i \<le> length s \<and> is_word U (s ! (i - 1))) \<noteq> (i < length s \<and> is_word U (s ! i)))"

definition lit_at :: "unicode_db \<Rightarrow> bool \<Rightarrow> pystr \<Rightarrow> pystr \<Rightarrow> nat \<Rightarrow> bool" where
  "lit_at U ic w s i = (i + length w \<le> length s \<and>
     list_all2 (\<lambda>c x. item_match U ic (Ch c) x) w (take (length w) (drop i s)))"

text \<open>
  The engine of \<^verbatim>\<open>re\<close> backtracks. \<open>ends U ic r s i\<close> lists the positions where a match of
  \<open>r\<close> that starts at \<open>i\<close> in \<open>s\<close> can end, in the order in which the engine tries them:
  the left branch of an alternation before the right one, one more round of a repetition
  before stopping. The first element is the end of the match the engine reports. A round of
  a repetition that consumes nothing is not repeated.
\<close>

function rep_ends :: "(nat \<Rightarrow> nat list) \<Rightarrow> nat \<Rightarrow> nat \<Rightarrow> nat option \<Rightarrow> nat \<Rightarrow> nat list" where
  "rep_ends f n lo hi i =
     (if hi = Some 0 then []
      else concat (map (\<lambda>j. if i < j \<and> j \<le> n
                              then rep_ends f n (lo - 1) (map_option (\<lambda>h. h - 1) hi) j
                              else [])
                       (f i)))
     @ (if lo = 0 then [i] else [])"
  by pat_completeness auto
termination
  by (relation "measure (\<lambda>(f, n, lo, hi, i). n - i)") auto

fun ends :: "unicode_db \<Rightarrow> bool \<Rightarrow> regex \<Rightarrow> pystr \<Rightarrow> nat \<Rightarrow> nat list" where
  "ends U ic (Lit w) s i = (if lit_at U ic w s i then [i + length w] else [])"
| "ends U ic (Set its) s i =
     (if i < length s \<and> list_ex (\<lambda>it. item_match U ic it (s ! i)) its then [Suc i] else [])"
| "ends U ic WordB s i = (if at_boundary U s i then [i] else [])"
| "ends U ic (Seq a b) s i = concat (map (ends U ic b s) (ends U ic a s i))"
| "ends U ic (Alt a b) s i = ends U ic a s i @ ends U ic b s i"
| "ends U ic (Rep lo hi r) s i = rep_ends (ends U ic r s) (length s) lo hi i"

text \<open>
  \<^verbatim>\<open>re.search\<close> scans the start positions from left to right and reports the first match
  found: its start and its end.
\<close>

function find_from :: "unicode_db \<Rightarrow> bool \<Rightarrow> regex \<Rightarrow> pystr \<Rightarrow> nat \<Rightarrow> (nat \<times> nat) option" where
  "find_from U ic r s pos =
     (if length s < pos then None
      else case ends U ic r s pos of
             j # _ \<Rightarrow> Some (pos, j)
           | [] \<Rightarrow> find_from U ic r s (Suc pos))"
  by pat_completeness auto
termination
  by (relation "measure (\<lambda>(U, ic, r, s, pos). Suc (length s) - pos)") auto

definition re_search :: "unicode_db \<Rightarrow> bool \<Rightarrow> regex \<Rightarrow> pystr \<Rightarrow> bool" where
  "re_search U ic r s = (find_from U ic r s 0 \<noteq> None)"

lemma find_from_bounds:
  "find_from U ic r s pos = Some (i, j) \<Longrightarrow> pos \<le> i \<and> i \<le> length s"
proof (induction U ic r s pos rule: find_from.induct)
  case (1 U ic r s pos)
  show ?case
  proof (cases "length s < pos")
    case True
    with "1.prems" show ?thesis by simp
  next
    case False
    show ?thesis
    proof (cases "ends U ic r s pos")
      case Nil
      with False "1.prems" have "find_from U ic r s (Suc pos) = Some (i, j)" by simp
      with "1.IH"[OF False Nil] show ?thesis by simp
    next
      case (Cons j' js)
      with False "1.prems" show ?thesis by simp
    qed
  qed
qed

text \<open>
  \<^verbatim>\<open>re.sub\<close> replaces the matches found from left to right, each search starting where
  the previous match ended; the text between matches is copied. After an empty match the
  next character is copied and the scan moves on (no pattern of this program can match the
  empty string).
\<close>

function sub_from :: "unicode_db \<Rightarrow> bool \<Rightarrow> regex \<Rightarrow> pystr \<Rightarrow> pystr \<Rightarrow> nat \<Rightarrow> pystr" where
  "sub_from U ic r repl s pos =
     (case find_from U ic r s pos of
        None \<Rightarrow> drop pos s
      | Some (i, j) \<Rightarrow>
          take (i - pos) (drop pos s) @ repl @
          (if i < j then sub_from U ic r repl s j
           else if i < length s then s ! i # sub_from U ic r repl s (Suc i)
           else []))"
  by pat_completeness auto
termination
proof (relation "measure (\<lambda>(U, ic, r, repl, s, pos). Suc (length s) - pos)", goal_cases)
  case 1
  show ?case by simp
next
  case (2 U ic r repl s pos x2 i j)
  then have "pos \<le> i \<and> i \<le> length s" using find_from_bounds by metis
  with 2 show ?case by auto
next
  case (3 U ic r repl s pos x2 i j)
  then have "pos \<le> i \<and> i \<le> length s" using find_from_bounds by metis
  with 3 show ?case by auto
qed

definition re_sub :: "unicode_db \<Rightarrow> bool \<Rightarrow> regex \<Rightarrow> pystr \<Rightarrow> pystr \<Rightarrow> pystr" where
  "re_sub U ic r repl s = sub_from U ic r repl s 0"

section \<open>The redactor and the stack-trace filter\<close>

definition ch :: "char \<Rightarrow> item" where
  "ch c = Ch (of_char c)"

definition rng :: "char \<Rightarrow> char \<Rightarrow> item" where
  "rng a b = Rng (of_char a) (of_char b)"

text \<open>\<^verbatim>\<open>\b(?:\d{1,3}\.){3}\d{1,3}\b\<close>\<close>

definition ip_rx :: regex where
  "ip_rx =
     Seq WordB
    (Seq (Rep 3 (Some 3) (Seq (Rep 1 (Some 3) (Set [Digit])) (Lit (ascii ''.''))))
    (Seq (Rep 1 (Some 3) (Set [Digit]))
         WordB))"

text \<open>\<^verbatim>\<open>[A-Za-z0-9._%+-]+@[A-Za-z0-9.-]+\.[A-Za-z]{2,}\<close>\<close>

definition email_rx :: regex where
  "email_rx =
     Seq (Rep 1 None (Set [rng CHR ''A'' CHR ''Z'', rng CHR ''a'' CHR ''z'', rng CHR ''0'' CHR ''9'',
                           ch CHR ''.'', ch CHR ''_'', ch CHR ''%'', ch CHR ''+'', ch CHR ''-'']))
    (Seq (Lit (ascii ''@''))
    (Seq (Rep 1 None (Set [rng CHR ''A'' CHR ''Z'', rng CHR ''a'' CHR ''z'', rng CHR ''0'' CHR ''9'',
                           ch CHR ''.'', ch CHR ''-'']))
    (Seq (Lit (ascii ''.''))
         (Rep 2 None (Set [rng CHR ''A'' CHR ''Z'', rng CHR ''a'' CHR ''z''])))))"

text \<open>\<^verbatim>\<open>\b[a-zA-Z0-9-]+(?:\.[a-zA-Z0-9-]+)+\b\<close>\<close>

definition host_label :: regex where
  "host_label = Rep 1 None (Set [rng CHR ''a'' CHR ''z'', rng CHR ''A'' CHR ''Z'', rng CHR ''0'' CHR ''9'',
                                 ch CHR ''-''])"

definition host_rx :: regex where
  "host_rx =
     Seq WordB
    (Seq host_label
    (Seq (Rep 1 None (Seq (Lit (ascii ''.'')) host_label))
         WordB))"

text \<open>\<^verbatim>\<open>\b(?:id|internal[-_ ]?id)[:# ]?\s*[A-Za-z0-9_-]{6,}\b\<close>\<close>

definition id_rx :: regex where
  "id_rx =
     Seq WordB
    (Seq (Alt (Lit (ascii ''id''))
              (Seq (Lit (ascii ''internal''))
              (Seq (Rep 0 (Some 1) (Set [ch CHR ''-'', ch CHR ''_'', ch CHR '' '']))
                   (Lit (ascii ''id'')))))
    (Seq (Rep 0 (Some 1) (Set [ch CHR '':'', ch CHR ''#'', ch CHR '' '']))
    (Seq (Rep 0 None (Set [Space]))
    (Seq (Rep 6 None (Set [rng CHR ''A'' CHR ''Z'', rng CHR ''a'' CHR ''z'', rng CHR ''0'' CHR ''9'',
                           ch CHR ''_'', ch CHR ''-'']))
         WordB))))"

text \<open>
  The pattern of the line filter is a raw string with six branches: \<open>Traceback\<close>,
  \<open>Exception\<close>, \<open>Error:\<close>, two branches that start with \<open>'' at ''\<close>, and
  \<open>Caused by:\<close>. In the raw string the fourth branch ends with two backslashes and a
  slash, the fifth with four backslashes. A raw string hands its backslashes to the engine
  as they are, and the engine reads each pair as one literal backslash (code point 92): the
  fourth branch is \<open>'' at ''\<close>, a backslash and a slash (47); the fifth is \<open>'' at ''\<close> and two
  backslashes.
\<close>

definition trace_rx :: regex where
  "trace_rx =
     Alt (Lit (ascii ''Traceback''))
    (Alt (Lit (ascii ''Exception''))
    (Alt (Lit (ascii ''Error:''))
    (Alt (Lit (ascii '' at '' @ [92, 47]))
    (Alt (Lit (ascii '' at '' @ [92, 92]))
         (Lit (ascii ''Caused by:''))))))"

record redaction_note =
  token :: pystr
  action :: pystr

record sanitized =
  text_of :: pystr
  notes_of :: "redaction_note list"

definition rules :: "(regex \<times> pystr \<times> pystr) list" where
  "rules =
     [(ip_rx, ascii ''[redacted-ip]'', ascii ''ip''),
      (email_rx, ascii ''[redacted-email]'', ascii ''email''),
      (host_rx, ascii ''[redacted-host]'', ascii ''hostname''),
      (id_rx, ascii ''[redacted-id]'', ascii ''internal-id'')]"

text \<open>The first loop of \<^verbatim>\<open>sanitize_text\<close>, over the rules; the state is \<open>(redacted, notes)\<close>.\<close>

fun apply_rules :: "unicode_db \<Rightarrow> (regex \<times> pystr \<times> pystr) list \<Rightarrow> pystr \<Rightarrow> redaction_note list
    \<Rightarrow> pystr \<times> redaction_note list" where
  "apply_rules U [] redacted ns = (redacted, ns)"
| "apply_rules U ((pattern, repl, label) # rs) redacted ns =
     (if re_search U True pattern redacted
      then apply_rules U rs (re_sub U True pattern repl redacted)
             (ns @ [\<lparr>token = label, action = ascii ''redacted''\<rparr>])
      else apply_rules U rs redacted ns)"

text \<open>The second loop, over the lines; the state is \<open>(filtered_lines, notes)\<close>.\<close>

fun filter_lines :: "unicode_db \<Rightarrow> pystr list \<Rightarrow> pystr list \<Rightarrow> redaction_note list
    \<Rightarrow> pystr list \<times> redaction_note list" where
  "filter_lines U [] filtered ns = (filtered, ns)"
| "filter_lines U (line # ls) filtered ns =
     (if re_search U False trace_rx line
      then filter_lines U ls filtered
             (ns @ [\<lparr>token = ascii ''stack-trace-line'', action = ascii ''removed''\<rparr>])
      else filter_lines U ls (filtered @ [line]) ns)"

definition sanitize_text :: "unicode_db \<Rightarrow> pystr \<Rightarrow> sanitized" where
  "sanitize_text U txt =
     (case apply_rules U rules txt [] of
        (redacted, ns) \<Rightarrow>
          (case filter_lines U (splitlines redacted) [] ns of
             (filtered_lines, ns') \<Rightarrow> \<lparr>text_of = join [10] filtered_lines, notes_of = ns'\<rparr>))"

section \<open>Cadence, prompt and export templates\<close>

text \<open>
  The request body is a JSON object; the program reads the keys \<^verbatim>\<open>summary\<close>,
  \<^verbatim>\<open>impact\<close>, \<^verbatim>\<open>mitigation\<close>, \<^verbatim>\<open>severity\<close>, \<^verbatim>\<open>next_update\<close> and \<^verbatim>\<open>stage\<close>. The model covers
  the objects whose values are strings; a key may be absent.
\<close>

type_synonym payload = "string \<rightharpoonup> pystr"

definition get_or :: "payload \<Rightarrow> string \<Rightarrow> pystr \<Rightarrow> pystr" where
  "get_or p k d = (case p k of Some v \<Rightarrow> v | None \<Rightarrow> d)"

text \<open>\<^verbatim>\<open>x or y\<close> where \<open>x\<close> is \<^verbatim>\<open>None\<close> or a string: the empty string is falsy.\<close>

definition truthy :: "pystr option \<Rightarrow> bool" where
  "truthy x = (case x of Some v \<Rightarrow> v \<noteq> [] | None \<Rightarrow> False)"

definition or_else :: "pystr option \<Rightarrow> pystr \<Rightarrow> pystr" where
  "or_else x y = (case x of Some v \<Rightarrow> if v \<noteq> [] then v else y | None \<Rightarrow> y)"

definition SEVERITY_CADENCE :: "(pystr \<times> pystr) list" where
  "SEVERITY_CADENCE =
     [(ascii ''SEV1'', ascii ''30 minutes''),
      (ascii ''SEV2'', ascii ''60 minutes''),
      (ascii ''SEV3'', ascii ''2 hours''),
      (ascii ''SEV4'', ascii ''daily or on meaningful change'')]"

definition default_cadence :: "unicode_db \<Rightarrow> pystr \<Rightarrow> pystr" where
  "default_cadence U severity =
     (case map_of SEVERITY_CADENCE (py_upper U severity) of
        Some c \<Rightarrow> c
      | None \<Rightarrow> ascii ''60 minutes'')"

definition tone :: pystr where
  "tone = ascii ''You are AICA, an AI assistant generating customer-facing incident updates. ''
    @ ascii ''Be clear, empathetic, and non-speculative. Avoid internal details, stack traces, hostnames, IPs, and employee names. ''
    @ ascii ''Use simple language, keep within the length bound, and conclude with an explicit next-update time.''"

text \<open>The word bound of the prompt, as the f-string prints the integer.\<close>

definition bounds :: "pystr \<Rightarrow> pystr" where
  "bounds stage =
     (if stage = ascii ''initial'' then ascii ''150''
      else if stage = ascii ''ongoing'' then ascii ''200''
      else if stage = ascii ''resolution'' then ascii ''250''
      else ascii ''200'')"

definition build_prompt :: "unicode_db \<Rightarrow> pystr \<Rightarrow> payload \<Rightarrow> pystr" where
  "build_prompt U stage p =
     (let severity = get_or p ''severity'' (ascii ''SEV3'');
          next_update = or_else (p ''next_update'') (default_cadence U severity);
          summary = strip U (get_or p ''summary'' []);
          impact = strip U (get_or p ''impact'' []);
          mitigation = strip U (get_or p ''mitigation'' (ascii ''investigating''))
      in ascii ''Tone & Policy: '' @ tone @ [10, 10]
         @ ascii ''Stage: '' @ stage @ [10] @ ascii ''Severity: '' @ severity @ [10]
         @ ascii ''Next-Update: '' @ next_update @ [10]
         @ ascii ''MitigationStatus: '' @ mitigation @ [10] @ ascii ''Impact: '' @ impact @ [10]
         @ ascii ''Summary: '' @ summary @ [10, 10]
         @ ascii ''Length bound: <= '' @ bounds stage @ ascii '' words.'' @ [10]
         @ ascii ''Output plain text suitable for customers.'')"

record exports =
  statuspage :: pystr
  email :: pystr

text \<open>The titles of the status page hold an en dash, code point 8211.\<close>

definition statuspage_title :: "pystr \<Rightarrow> pystr" where
  "statuspage_title stage =
     (if stage = ascii ''initial'' then ascii ''Service Degradation '' @ [8211] @ ascii '' Update''
      else if stage = ascii ''resolution'' then ascii ''Incident Resolved '' @ [8211] @ ascii '' Summary''
      else ascii ''Incident Update '' @ [8211] @ ascii '' Progress'')"

definition email_subject :: "pystr \<Rightarrow> pystr" where
  "email_subject stage =
     (if stage = ascii ''initial'' then ascii ''[Incident] Initial Notice''
      else if stage = ascii ''resolution'' then ascii ''[Incident] Resolved''
      else ascii ''[Incident] Update'')"

definition format_templates :: "pystr \<Rightarrow> pystr \<Rightarrow> pystr \<Rightarrow> exports" where
  "format_templates stage txt next_update =
     (let statuspage_lines = [statuspage_title stage, [], txt, [], ascii ''Next update: '' @ next_update];
          email_lines = [email_subject stage, [], txt, [], ascii ''Next update: '' @ next_update]
      in \<lparr>statuspage = take 2000 (join [10] statuspage_lines),
          email = join [10] email_lines\<rparr>)"

section \<open>The generative backend\<close>

text \<open>
  What \<^verbatim>\<open>try_llm_generate\<close> finds outside the program: the environment variables
  \<^verbatim>\<open>OPENAI_API_KEY\<close> and \<^verbatim>\<open>OPENAI_MODEL\<close>, and the outcome of the body of its \<^verbatim>\<open>try\<close>
  (import of the client library, construction of the client, the request) for a given
  prompt: an exception, or the output items of the response. An output item is its type
  and its content parts; a part is its type and its text.
\<close>

type_synonym out_part = "pystr \<times> pystr"

type_synonym out_item = "pystr \<times> out_part list"

datatype backend_result = Raised | Output "out_item list"

record env =
  api_key :: "pystr option"
  openai_model :: "pystr option"
  backend :: "pystr \<Rightarrow> backend_result"

definition output_parts :: "out_item list \<Rightarrow> pystr list" where
  "output_parts items =
     concat (map (\<lambda>(ty, content).
                    if ty = ascii ''message''
                    then map snd (filter (\<lambda>(cty, ctext). cty = ascii ''output_text'') content)
                    else [])
                 items)"

text \<open>
  The result is the dictionary \<^verbatim>\<open>{}\<close> (\<open>None\<close>) or \<^verbatim>\<open>{"standard": text}\<close>
  (\<open>Some text\<close>).
\<close>

definition try_llm_generate :: "env \<Rightarrow> unicode_db \<Rightarrow> pystr \<Rightarrow> payload \<Rightarrow> pystr option" where
  "try_llm_generate E U stage p =
     (if \<not> truthy (api_key E) then None
      else case backend E (build_prompt U stage p) of
             Raised \<Rightarrow> None
           | Output items \<Rightarrow>
               (let parts = output_parts items;
                    txt = strip U (join [10] (filter (\<lambda>q. q \<noteq> []) parts))
                in if txt = [] then None else Some txt))"

section \<open>The request handler\<close>

record drafts =
  short :: pystr
  standard :: pystr
  detailed :: pystr

record meta =
  severity :: pystr
  next_update :: pystr
  stage :: pystr
  llm_mode :: pystr
  llm_used :: bool
  llm_model :: "pystr option"

record guardrails =
  redaction_notes :: "redaction_note list"
  blocked :: bool

record response =
  r_drafts :: drafts
  r_exports :: exports
  r_guardrails :: guardrails
  r_meta :: meta

text \<open>
  The closure \<^verbatim>\<open>templated\<close> of \<^verbatim>\<open>generate\<close>; it reads the payload as the sanitizing loop
  left it, and the severity and next update resolved before.
\<close>

definition templated :: "unicode_db \<Rightarrow> payload \<Rightarrow> pystr \<Rightarrow> pystr \<Rightarrow> string \<Rightarrow> pystr" where
  "templated U p sev nxt style =
     (let base = ascii ''We are '' @ get_or p ''mitigation'' (ascii ''investigating'')
                 @ ascii '' an issue impacting '' @ get_or p ''impact'' (ascii ''unspecified scope'')
                 @ ascii ''. '' @ ascii ''Severity: '' @ sev @ ascii ''. Next update in '' @ nxt
                 @ ascii ''. '' @ ascii ''Summary: '' @ strip U (get_or p ''summary'' [])
      in if style = ''short'' then base
         else if style = ''standard''
           then base @ ascii '' We will provide further details as they are verified.''
         else base @ ascii '' Resolution steps are underway; we will share a full summary post-resolution.'')"

text \<open>
  The loop over the fields \<^verbatim>\<open>summary\<close> and \<^verbatim>\<open>impact\<close>: it stores the sanitized text back
  into the payload object and collects the notes.
\<close>

fun sanitize_fields :: "unicode_db \<Rightarrow> string list \<Rightarrow> payload \<Rightarrow> redaction_note list \<Rightarrow> payload \<times> redaction_note list" where
  "sanitize_fields U [] p ns = (p, ns)"
| "sanitize_fields U (f # fs) p ns =
     (let redacted = sanitize_text U (get_or p f [])
      in sanitize_fields U fs (p(f \<mapsto> text_of redacted)) (ns @ notes_of redacted))"

text \<open>
  \<^verbatim>\<open>generate\<close> returns the response; since it writes to the payload object it was given,
  the model returns that object as well, as it is when the handler returns.
\<close>

definition generate :: "env \<Rightarrow> unicode_db \<Rightarrow> payload \<Rightarrow> payload \<times> response" where
  "generate E U p0 =
     (let stg = py_lower U (or_else (p0 ''stage'') (ascii ''ongoing''));
          sev = get_or p0 ''severity'' (ascii ''SEV3'');
          nxt = or_else (p0 ''next_update'') (default_cadence U sev)
      in case sanitize_fields U [''summary'', ''impact''] p0 [] of
           (p, ns) \<Rightarrow>
             (let llm_out = try_llm_generate E U stg p;
                  mode = (if truthy (api_key E) then ascii ''openai'' else ascii ''template'');
                  used = (llm_out \<noteq> None);
                  ds = \<lparr>short = templated U p sev nxt ''short'',
                        standard = (case llm_out of Some t \<Rightarrow> t
                                    | None \<Rightarrow> templated U p sev nxt ''standard''),
                        detailed = templated U p sev nxt ''detailed''\<rparr>;
                  ex = format_templates stg (standard ds) nxt
              in (p, \<lparr>r_drafts = ds,
                      r_exports = ex,
                      r_guardrails = \<lparr>redaction_notes = ns, blocked = False\<rparr>,
                      r_meta = \<lparr>severity = sev, next_update = nxt, stage = stg,
                                llm_mode = mode, llm_used = used,
                                llm_model = (if used then openai_model E else None)\<rparr>\<rparr>)))"

text \<open>A database under which no code point beyond ASCII is special, for concrete runs.\<close>

definition plain_db :: unicode_db where
  "plain_db = \<lparr>uni_word = (\<lambda>c. False), uni_space = (\<lambda>c. False), uni_digit = (\<lambda>c. False),
               uni_caseless = (\<lambda>it c. False), uni_lower = (\<lambda>s. s), uni_upper = (\<lambda>s. s)\<rparr>"

section \<open>Export templates\<close>

lemma format_templates_email:
  "email (format_templates stg txt nxt) =
     email_subject stg @ [10, 10] @ txt @ [10, 10] @ ascii ''Next update: '' @ nxt"
  by (simp add: format_templates_def)

lemma format_templates_statuspage:
  "statuspage (format_templates stg txt nxt) =
     take 2000 (statuspage_title stg @ [10, 10] @ txt @ [10, 10] @ ascii ''Next update: '' @ nxt)"
  by (simp add: format_templates_def)

lemma take_app_le: "n \<le> length xs \<Longrightarrow> take n (xs @ ys) = take n xs"
  by simp

text \<open>
  C9. For every stage, draft text and next update, the status-page export is the first 2000
  characters of the title, a blank line, the draft, a blank line and the next-update line,
  and all of them when they are fewer: a cut by character count, so the length of the export
  is the smaller of 2000 and the full length, and never more than 2000. When the draft alone
  has 2000 characters or more, the export has exactly 2000 characters and holds nothing of
  the next-update line. The e-mail export is the full concatenation of subject, blank line,
  draft, blank line and next-update line: nothing of it is cut, so its length is the sum of
  the parts (17 characters are the four line breaks and the words \<open>Next update: \<close>). A
  draft of 3000 characters at stage \<open>initial\<close> therefore gives a status page of exactly 2000
  characters, the title, the blank line and the first 1970 characters of the draft, and an
  e-mail of 3052 characters.
\<close>

theorem export_cap:
  "statuspage (format_templates stg txt nxt)
     = take 2000 (statuspage_title stg @ [10, 10] @ txt @ [10, 10] @ ascii ''Next update: '' @ nxt)
   \<and> length (statuspage (format_templates stg txt nxt))
       = min 2000 (length (statuspage_title stg) + length txt + length nxt + 17)
   \<and> length (statuspage (format_templates stg txt nxt)) \<le> 2000
   \<and> (2000 \<le> length txt \<longrightarrow>
        statuspage (format_templates stg txt nxt) = take 2000 (statuspage_title stg @ [10, 10] @ txt)
        \<and> length (statuspage (format_templates stg txt nxt)) = 2000)
   \<and> email (format_templates stg txt nxt)
       = email_subject stg @ [10, 10] @ txt @ [10, 10] @ ascii ''Next update: '' @ nxt
   \<and> length (email (format_templates stg txt nxt))
       = length (email_subject stg) + length txt + length nxt + 17"
proof -
  let ?head = "statuspage_title stg @ [10, 10] @ txt"
  let ?tail = "[10, 10] @ ascii ''Next update: '' @ nxt"
  have sp: "statuspage (format_templates stg txt nxt) = take 2000 (?head @ ?tail)"
    by (simp add: format_templates_statuspage)
  have lx: "length (?head @ ?tail) = length (statuspage_title stg) + length txt + length nxt + 17"
    by (simp add: ascii_def)
  have len: "length (statuspage (format_templates stg txt nxt))
      = min 2000 (length (statuspage_title stg) + length txt + length nxt + 17)"
    unfolding sp length_take lx by (rule min.commute)
  have cut: "take 2000 (?head @ ?tail) = take 2000 ?head" if "2000 \<le> length txt"
  proof -
    from that have "2000 \<le> length ?head" by simp
    then show ?thesis by (rule take_app_le)
  qed
  have full: "length (take 2000 ?head) = 2000" if "2000 \<le> length txt"
    using that by simp
  have em: "length (email (format_templates stg txt nxt))
       = length (email_subject stg) + length txt + length nxt + 17"
    by (simp add: format_templates_email ascii_def)
  show ?thesis
    using sp len cut full em format_templates_email[of stg "txt" nxt] by simp
qed

lemma initial_title_length:
  "statuspage_title (ascii ''initial'') = ascii ''Service Degradation '' @ [8211] @ ascii '' Update''"
  "length (ascii ''Service Degradation '' @ [8211] @ ascii '' Update'') = 28"
  "length (email_subject (ascii ''initial'')) = 25"
  "length (ascii ''30 minutes'') = 10"
  by (simp_all add: statuspage_title_def email_subject_def ascii_def)

lemma cut_replicate:
  fixes T :: pystr
  assumes "length T + 2 + k = 2000" "k \<le> n"
  shows "take 2000 (T @ [10, 10] @ replicate n x) = T @ [10, 10] @ replicate k x"
proof -
  let ?A = "T @ [10, 10] @ replicate k x"
  have "replicate n x = replicate k x @ replicate (n - k) x"
    using assms(2) by (simp add: replicate_add[symmetric])
  then have eq: "T @ [10, 10] @ replicate n x = ?A @ replicate (n - k) x"
    by simp
  have len: "length ?A = 2000"
    using assms(1) by simp
  have "take 2000 (?A @ replicate (n - k) x) = take 2000 ?A"
    by (rule take_app_le) (simp only: len order_refl)
  also have "\<dots> = ?A"
    by (rule take_all) (simp only: len order_refl)
  finally show ?thesis by (simp only: eq)
qed

theorem export_cap_witness:
  "statuspage (format_templates (ascii ''initial'') (replicate 3000 120) (ascii ''30 minutes''))
     = (ascii ''Service Degradation '' @ [8211] @ ascii '' Update'') @ [10, 10] @ replicate 1970 120
   \<and> length (statuspage (format_templates (ascii ''initial'') (replicate 3000 120) (ascii ''30 minutes''))) = 2000
   \<and> length (email (format_templates (ascii ''initial'') (replicate 3000 120) (ascii ''30 minutes''))) = 3052"
proof -
  note t = export_cap[of "ascii ''initial''" "replicate 3000 120" "ascii ''30 minutes''"]
  have l: "2000 \<le> length (replicate 3000 (120 :: nat))"
    by (simp only: length_replicate)
  from t l have s: "statuspage (format_templates (ascii ''initial'') (replicate 3000 120) (ascii ''30 minutes''))
      = take 2000 (statuspage_title (ascii ''initial'') @ [10, 10] @ replicate 3000 120)"
    and n: "length (statuspage (format_templates (ascii ''initial'') (replicate 3000 120) (ascii ''30 minutes''))) = 2000"
    by blast+
  from t have e: "length (email (format_templates (ascii ''initial'') (replicate 3000 120) (ascii ''30 minutes'')))
      = length (email_subject (ascii ''initial'')) + length (replicate 3000 (120 :: nat)) + length (ascii ''30 minutes'') + 17"
    by blast
  have c: "take 2000 ((ascii ''Service Degradation '' @ [8211] @ ascii '' Update'') @ [10, 10] @ replicate 3000 120)
      = (ascii ''Service Degradation '' @ [8211] @ ascii '' Update'') @ [10, 10] @ replicate 1970 120"
  proof (rule cut_replicate)
    show "length (ascii ''Service Degradation '' @ [8211] @ ascii '' Update'') + 2 + 1970 = 2000"
      by (simp only: initial_title_length)
    show "(1970 :: nat) \<le> 3000" by simp
  qed
  have s': "statuspage (format_templates (ascii ''initial'') (replicate 3000 120) (ascii ''30 minutes''))
     = (ascii ''Service Degradation '' @ [8211] @ ascii '' Update'') @ [10, 10] @ replicate 1970 120"
    unfolding s initial_title_length(1) by (rule c)
  have e': "length (email (format_templates (ascii ''initial'') (replicate 3000 120) (ascii ''30 minutes''))) = 3052"
    unfolding e by (simp only: initial_title_length length_replicate)
  from s' n e' show ?thesis by blast
qed

section \<open>The request handler: cadence, payload and template path\<close>

definition no_backend :: env where
  "no_backend = \<lparr>api_key = None, openai_model = None, backend = (\<lambda>prompt. Raised)\<rparr>"

lemma sanitize_fields_two:
  "sanitize_fields U [''summary'', ''impact''] p [] =
     (p(''summary'' \<mapsto> text_of (sanitize_text U (get_or p ''summary'' [])),
        ''impact'' \<mapsto> text_of (sanitize_text U (get_or p ''impact'' []))),
      notes_of (sanitize_text U (get_or p ''summary'' []))
      @ notes_of (sanitize_text U (get_or p ''impact'' [])))"
  by (simp add: Let_def get_or_def)

lemma try_llm_no_key: "\<not> truthy (api_key E) \<Longrightarrow> try_llm_generate E U stg p = None"
  by (simp add: try_llm_generate_def)

lemma generate_no_key:
  assumes "\<not> truthy (api_key E)"
  shows "generate E U p = generate no_backend U p"
proof -
  have "\<not> truthy (api_key no_backend)" by (simp add: no_backend_def truthy_def)
  then show ?thesis using assms
    by (simp add: generate_def try_llm_no_key Let_def split: prod.splits)
qed

lemma generate_payload:
  "fst (generate E U p) =
     p(''summary'' \<mapsto> text_of (sanitize_text U (get_or p ''summary'' [])),
       ''impact'' \<mapsto> text_of (sanitize_text U (get_or p ''impact'' [])))"
  by (simp add: generate_def sanitize_fields_two Let_def get_or_def)

lemma generate_next_update:
  "next_update (r_meta (snd (generate E U p))) =
     or_else (p ''next_update'') (default_cadence U (get_or p ''severity'' (ascii ''SEV3'')))"
  by (simp add: generate_def sanitize_fields_two Let_def)

lemma default_cadence_cases:
  "default_cadence U s =
     (if py_upper U s = ascii ''SEV1'' then ascii ''30 minutes''
      else if py_upper U s = ascii ''SEV2'' then ascii ''60 minutes''
      else if py_upper U s = ascii ''SEV3'' then ascii ''2 hours''
      else if py_upper U s = ascii ''SEV4'' then ascii ''daily or on meaningful change''
      else ascii ''60 minutes'')"
  by (simp add: default_cadence_def SEVERITY_CADENCE_def)

lemma default_cadence_SEV3: "default_cadence U (ascii ''SEV3'') = ascii ''2 hours''"
  by code_simp

text \<open>
  C7 does not hold as stated. With no \<open>severity\<close> and no \<open>next_update\<close> in the request the
  handler resolves the severity to \<open>SEV3\<close> first, so the next update is \<open>2 hours\<close>, not
  \<open>60 minutes\<close>; and an override that is the empty string does not win, the cadence does.
\<close>

theorem missing_severity_counterexample:
  "next_update (r_meta (snd (generate no_backend plain_db Map.empty))) = ascii ''2 hours''
   \<and> ascii ''2 hours'' \<noteq> ascii ''60 minutes''
   \<and> next_update (r_meta (snd (generate no_backend plain_db [''next_update'' \<mapsto> []]))) = ascii ''2 hours''
   \<and> ascii ''2 hours'' \<noteq> ([] :: pystr)"
  by (simp add: generate_next_update or_else_def get_or_def default_cadence_SEV3) code_simp

text \<open>
  C7, amended. The resolved next update is the \<open>next_update\<close> of the request when that is a
  non-empty string, unchanged. Otherwise (absent or empty) it is the cadence of the severity,
  where an absent severity counts as \<open>SEV3\<close>: the severity in upper case is looked up,
  \<open>SEV1\<close> gives \<open>30 minutes\<close>, \<open>SEV2\<close> \<open>60 minutes\<close>, \<open>SEV3\<close> \<open>2 hours\<close>, \<open>SEV4\<close>
  \<open>daily or on meaningful change\<close>, and any other severity \<open>60 minutes\<close>. So a request
  without severity and without override gets \<open>2 hours\<close>.
\<close>

theorem resolved_next_update:
  "(p ''next_update'' = Some v \<and> v \<noteq> [] \<longrightarrow> next_update (r_meta (snd (generate E U p))) = v)
   \<and> (\<not> truthy (p ''next_update'') \<longrightarrow>
        next_update (r_meta (snd (generate E U p)))
          = default_cadence U (get_or p ''severity'' (ascii ''SEV3'')))
   \<and> default_cadence U s =
       (if py_upper U s = ascii ''SEV1'' then ascii ''30 minutes''
        else if py_upper U s = ascii ''SEV2'' then ascii ''60 minutes''
        else if py_upper U s = ascii ''SEV3'' then ascii ''2 hours''
        else if py_upper U s = ascii ''SEV4'' then ascii ''daily or on meaningful change''
        else ascii ''60 minutes'')
   \<and> (is_ascii s \<longrightarrow> py_upper U s = map ascii_upper s)
   \<and> (p ''severity'' = None \<and> \<not> truthy (p ''next_update'') \<longrightarrow>
        next_update (r_meta (snd (generate E U p))) = ascii ''2 hours'')"
proof -
  have a: "\<not> truthy (p ''next_update'') \<Longrightarrow>
      or_else (p ''next_update'') d = d" for d
    by (auto simp: truthy_def or_else_def split: option.splits)
  show ?thesis
    using default_cadence_cases[of U s]
    by (auto simp: generate_next_update or_else_def get_or_def default_cadence_SEV3 py_upper_def
          truthy_def split: option.splits)
qed

lemma w7_override: "[''next_update'' \<mapsto> ascii ''5 minutes'', ''severity'' \<mapsto> ascii ''sev1''] ''next_update''
    = Some (ascii ''5 minutes'') \<and> ascii ''5 minutes'' \<noteq> []"
  by (simp add: ascii_def)

lemma w7_ascii: "is_ascii (ascii ''sev1'')"
  by code_simp

lemma w7_upper: "map ascii_upper (ascii ''sev1'') = ascii ''SEV1''"
  by code_simp

theorem resolved_next_update_witness:
  "next_update (r_meta (snd (generate no_backend plain_db
      [''next_update'' \<mapsto> ascii ''5 minutes'', ''severity'' \<mapsto> ascii ''sev1'']))) = ascii ''5 minutes''
   \<and> next_update (r_meta (snd (generate no_backend plain_db [''severity'' \<mapsto> ascii ''sev1''])))
       = ascii ''30 minutes''
   \<and> next_update (r_meta (snd (generate no_backend plain_db [''severity'' \<mapsto> ascii ''SEV9''])))
       = ascii ''60 minutes''
   \<and> py_upper plain_db (ascii ''sev1'') = ascii ''SEV1''
   \<and> next_update (r_meta (snd (generate no_backend plain_db Map.empty))) = ascii ''2 hours''"
proof -
  note t1 = resolved_next_update[of "[''next_update'' \<mapsto> ascii ''5 minutes'', ''severity'' \<mapsto> ascii ''sev1'']"
      "ascii ''5 minutes''" no_backend plain_db "ascii ''sev1''"]
  note t2 = resolved_next_update[of "[''severity'' \<mapsto> ascii ''sev1'']" "[]" no_backend plain_db "ascii ''sev1''"]
  note t3 = resolved_next_update[of "[''severity'' \<mapsto> ascii ''SEV9'']" "[]" no_backend plain_db "ascii ''SEV9''"]
  note t4 = resolved_next_update[of Map.empty "[]" no_backend plain_db "ascii ''sev1''"]
  have u1: "py_upper plain_db (ascii ''sev1'') = ascii ''SEV1''"
    using t2 w7_ascii w7_upper by simp
  have c1: "default_cadence plain_db (ascii ''sev1'') = ascii ''30 minutes''"
    using t2 u1 by simp
  have c3: "default_cadence plain_db (ascii ''SEV9'') = ascii ''60 minutes''"
    by code_simp
  have "next_update (r_meta (snd (generate no_backend plain_db
      [''next_update'' \<mapsto> ascii ''5 minutes'', ''severity'' \<mapsto> ascii ''sev1'']))) = ascii ''5 minutes''"
    using t1 w7_override by blast
  moreover have "next_update (r_meta (snd (generate no_backend plain_db [''severity'' \<mapsto> ascii ''sev1''])))
       = ascii ''30 minutes''"
    using t2 c1 by (simp add: truthy_def get_or_def)
  moreover have "next_update (r_meta (snd (generate no_backend plain_db [''severity'' \<mapsto> ascii ''SEV9''])))
       = ascii ''60 minutes''"
    using t3 c3 by (simp add: truthy_def get_or_def)
  moreover have "next_update (r_meta (snd (generate no_backend plain_db Map.empty))) = ascii ''2 hours''"
  proof -
    have "(Map.empty :: payload) ''severity'' = None \<and> \<not> truthy ((Map.empty :: payload) ''next_update'')"
      by (simp add: truthy_def)
    with t4 show ?thesis by blast
  qed
  ultimately show ?thesis using u1 by blast
qed

lemma generate_no_backend_X:
  "snd (generate no_backend U
      [''summary'' \<mapsto> ascii ''X'', ''severity'' \<mapsto> ascii ''SEV2'', ''stage'' \<mapsto> ascii ''initial'']) =
   \<lparr>r_drafts =
      \<lparr>short = ascii ''We are investigating an issue impacting . Severity: SEV2. Next update in 60 minutes. Summary: X'',
       standard = ascii ''We are investigating an issue impacting . Severity: SEV2. Next update in 60 minutes. Summary: X ''
         @ ascii ''We will provide further details as they are verified.'',
       detailed = ascii ''We are investigating an issue impacting . Severity: SEV2. Next update in 60 minutes. Summary: X''
         @ ascii '' Resolution steps are underway; we will share a full summary post-resolution.''\<rparr>,
    r_exports =
      \<lparr>statuspage = (ascii ''Service Degradation '' @ [8211] @ ascii '' Update'') @ [10, 10]
         @ ascii ''We are investigating an issue impacting . Severity: SEV2. Next update in 60 minutes. Summary: X''
         @ ascii '' We will provide further details as they are verified.''
         @ [10, 10] @ ascii ''Next update: 60 minutes'',
       email = ascii ''[Incident] Initial Notice'' @ [10, 10]
         @ ascii ''We are investigating an issue impacting . Severity: SEV2. Next update in 60 minutes. Summary: X''
         @ ascii '' We will provide further details as they are verified.''
         @ [10, 10] @ ascii ''Next update: 60 minutes''\<rparr>,
    r_guardrails = \<lparr>redaction_notes = [], blocked = False\<rparr>,
    r_meta = \<lparr>severity = ascii ''SEV2'', next_update = ascii ''60 minutes'', stage = ascii ''initial'',
       llm_mode = ascii ''template'', llm_used = False, llm_model = None\<rparr>\<rparr>"
  by code_simp

text \<open>
  C6. With no backend configured (the variable \<open>OPENAI_API_KEY\<close> unset or empty), the request
  \<open>{summary: "X", severity: "SEV2", stage: "initial"}\<close> gives a response whose \<open>llm_used\<close>
  flag (the spec's \<open>backend_used\<close>) is false, whose standard draft contains the sentence
  \<open>We will provide further details as they are verified.\<close>, and whose status-page export
  starts with the title \<open>Service Degradation - Update\<close> (written with an en dash).
\<close>

theorem backend_unavailable_scenario:
  assumes "\<not> truthy (api_key E)"
  shows "llm_used (r_meta (snd (generate E U
            [''summary'' \<mapsto> ascii ''X'', ''severity'' \<mapsto> ascii ''SEV2'', ''stage'' \<mapsto> ascii ''initial'']))) = False
         \<and> sublist (ascii ''We will provide further details as they are verified.'')
              (standard (r_drafts (snd (generate E U
                 [''summary'' \<mapsto> ascii ''X'', ''severity'' \<mapsto> ascii ''SEV2'', ''stage'' \<mapsto> ascii ''initial'']))))
         \<and> prefix (ascii ''Service Degradation '' @ [8211] @ ascii '' Update'')
              (statuspage (r_exports (snd (generate E U
                 [''summary'' \<mapsto> ascii ''X'', ''severity'' \<mapsto> ascii ''SEV2'', ''stage'' \<mapsto> ascii ''initial'']))))"
proof -
  have sub: "sublist w (a @ w)" for a w :: pystr
    using sublist_appendI[of w a "[]"] by simp
  show ?thesis
    unfolding generate_no_key[OF assms] generate_no_backend_X
    by (simp add: sub del: append_assoc)
qed

lemma no_backend_key: "\<not> truthy (api_key no_backend)"
  by (simp add: no_backend_def truthy_def)

theorem backend_unavailable_scenario_witness:
  "llm_used (r_meta (snd (generate no_backend plain_db
            [''summary'' \<mapsto> ascii ''X'', ''severity'' \<mapsto> ascii ''SEV2'', ''stage'' \<mapsto> ascii ''initial'']))) = False
         \<and> sublist (ascii ''We will provide further details as they are verified.'')
              (standard (r_drafts (snd (generate no_backend plain_db
                 [''summary'' \<mapsto> ascii ''X'', ''severity'' \<mapsto> ascii ''SEV2'', ''stage'' \<mapsto> ascii ''initial'']))))
         \<and> prefix (ascii ''Service Degradation '' @ [8211] @ ascii '' Update'')
              (statuspage (r_exports (snd (generate no_backend plain_db
                 [''summary'' \<mapsto> ascii ''X'', ''severity'' \<mapsto> ascii ''SEV2'', ''stage'' \<mapsto> ascii ''initial'']))))"
  by (rule backend_unavailable_scenario[OF no_backend_key])

section \<open>The backend path\<close>






section \<open>What the handler does to the payload\<close>

text \<open>
  C8 does not hold as stated: the handler assigns the sanitized text to \<open>payload[f]\<close>, so the
  object it was given is changed. A summary \<open>1.2.3.4\<close> is replaced by its redaction, and
  the key \<open>impact\<close>, absent before, is present afterwards with the empty string.
\<close>

theorem payload_mutated_counterexample:
  "[''summary'' \<mapsto> ascii ''1.2.3.4''] ''summary'' = Some (ascii ''1.2.3.4'')
   \<and> fst (generate no_backend plain_db [''summary'' \<mapsto> ascii ''1.2.3.4'']) ''summary''
       = Some (ascii ''[redacted-ip]'')
   \<and> ascii ''[redacted-ip]'' \<noteq> ascii ''1.2.3.4''
   \<and> [''summary'' \<mapsto> ascii ''1.2.3.4''] ''impact'' = None
   \<and> fst (generate no_backend plain_db [''summary'' \<mapsto> ascii ''1.2.3.4'']) ''impact'' = Some []"
proof -
  have a: "text_of (sanitize_text plain_db (ascii ''1.2.3.4'')) = ascii ''[redacted-ip]''"
    by code_simp
  have b: "text_of (sanitize_text plain_db []) = []"
    by code_simp
  have c: "ascii ''[redacted-ip]'' \<noteq> ascii ''1.2.3.4''"
    by (simp add: ascii_def)
  show ?thesis
    by (simp add: generate_payload get_or_def a b c)
qed

text \<open>
  C8, amended. The handler overwrites two entries of the payload object it receives:
  \<open>summary\<close> and \<open>impact\<close> are set to the sanitized text of their former value (of the empty
  string when the key was absent). Every other entry of the object is left as it was.
\<close>

theorem payload_frame:
  "fst (generate E U p) =
     p(''summary'' \<mapsto> text_of (sanitize_text U (get_or p ''summary'' [])),
       ''impact'' \<mapsto> text_of (sanitize_text U (get_or p ''impact'' [])))
   \<and> (k \<noteq> ''summary'' \<and> k \<noteq> ''impact'' \<longrightarrow> fst (generate E U p) k = p k)"
  by (simp add: generate_payload)

theorem payload_frame_witness:
  "fst (generate no_backend plain_db [''summary'' \<mapsto> ascii ''1.2.3.4'', ''mitigation'' \<mapsto> ascii ''10.0.0.1'']) ''summary''
     = Some (ascii ''[redacted-ip]'')
   \<and> fst (generate no_backend plain_db [''summary'' \<mapsto> ascii ''1.2.3.4'', ''mitigation'' \<mapsto> ascii ''10.0.0.1'']) ''mitigation''
     = Some (ascii ''10.0.0.1'')"
proof -
  note t = payload_frame[of no_backend plain_db
      "[''summary'' \<mapsto> ascii ''1.2.3.4'', ''mitigation'' \<mapsto> ascii ''10.0.0.1'']" "''mitigation''"]
  have a: "text_of (sanitize_text plain_db (ascii ''1.2.3.4'')) = ascii ''[redacted-ip]''"
    by code_simp
  from t have m: "fst (generate no_backend plain_db
      [''summary'' \<mapsto> ascii ''1.2.3.4'', ''mitigation'' \<mapsto> ascii ''10.0.0.1'']) ''mitigation''
     = [''summary'' \<mapsto> ascii ''1.2.3.4'', ''mitigation'' \<mapsto> ascii ''10.0.0.1''] ''mitigation''"
    by simp
  from t have s: "fst (generate no_backend plain_db
      [''summary'' \<mapsto> ascii ''1.2.3.4'', ''mitigation'' \<mapsto> ascii ''10.0.0.1'']) ''summary''
     = Some (text_of (sanitize_text plain_db (get_or [''summary'' \<mapsto> ascii ''1.2.3.4'', ''mitigation'' \<mapsto> ascii ''10.0.0.1''] ''summary'' [])))"
    by simp
  show ?thesis using m s a by (simp add: get_or_def)
qed

section \<open>Fields that are not sanitized\<close>

definition echo_backend :: env where
  "echo_backend = \<lparr>api_key = Some (ascii ''sk-test''), openai_model = Some (ascii ''gpt-4o-mini''),
     backend = (\<lambda>prompt. Output [(ascii ''message'', [(ascii ''output_text'', ascii ''ok'')])])\<rparr>"

text \<open>
  C3 does not hold as stated. When the backend answers, its text is the standard draft and
  the text of both exports, and nothing puts the mitigation into it: with the mitigation
  \<open>10.0.0.1\<close> and a backend that answers \<open>ok\<close>, the standard draft, the status page
  and the e-mail do not contain \<open>10.0.0.1\<close>.
\<close>

theorem mitigation_absent_counterexample:
  "standard (r_drafts (snd (generate echo_backend plain_db [''mitigation'' \<mapsto> ascii ''10.0.0.1'']))) = ascii ''ok''
   \<and> \<not> sublist (ascii ''10.0.0.1'')
        (standard (r_drafts (snd (generate echo_backend plain_db [''mitigation'' \<mapsto> ascii ''10.0.0.1'']))))
   \<and> \<not> sublist (ascii ''10.0.0.1'')
        (statuspage (r_exports (snd (generate echo_backend plain_db [''mitigation'' \<mapsto> ascii ''10.0.0.1'']))))
   \<and> \<not> sublist (ascii ''10.0.0.1'')
        (email (r_exports (snd (generate echo_backend plain_db [''mitigation'' \<mapsto> ascii ''10.0.0.1'']))))"
  by code_simp

lemma sublist_mid: "sublist w (a @ w @ b)"
  by (rule sublist_appendI)

lemma sublist_in_take:
  assumes "length a + length w \<le> n"
  shows "sublist w (take n (a @ w @ b))"
proof -
  have "take n ((a @ w) @ b) = (a @ w) @ take (n - length (a @ w)) b"
    using assms by (subst take_append) simp
  then have "take n (a @ w @ b) = a @ w @ take (n - length (a @ w)) b"
    by simp
  then show ?thesis by (simp only: sublist_mid)
qed

lemma statuspage_title_length: "length (statuspage_title stg) \<le> 28"
  by (simp add: statuspage_title_def ascii_def)

lemma templated_mitigation:
  "p ''mitigation'' = Some m \<Longrightarrow>
   templated U p sev nxt style = ascii ''We are '' @ m @
     (ascii '' an issue impacting '' @ get_or p ''impact'' (ascii ''unspecified scope'')
      @ ascii ''. '' @ ascii ''Severity: '' @ sev @ ascii ''. Next update in '' @ nxt
      @ ascii ''. '' @ ascii ''Summary: '' @ strip U (get_or p ''summary'' [])
      @ (if style = ''short'' then []
         else if style = ''standard''
           then ascii '' We will provide further details as they are verified.''
         else ascii '' Resolution steps are underway; we will share a full summary post-resolution.''))"
  by (simp add: templated_def get_or_def Let_def)

lemma templated_next_update:
  "templated U p sev nxt style =
     (ascii ''We are '' @ get_or p ''mitigation'' (ascii ''investigating'')
      @ ascii '' an issue impacting '' @ get_or p ''impact'' (ascii ''unspecified scope'')
      @ ascii ''. '' @ ascii ''Severity: '' @ sev @ ascii ''. Next update in '') @ nxt @
     (ascii ''. '' @ ascii ''Summary: '' @ strip U (get_or p ''summary'' [])
      @ (if style = ''short'' then []
         else if style = ''standard''
           then ascii '' We will provide further details as they are verified.''
         else ascii '' Resolution steps are underway; we will share a full summary post-resolution.''))"
  by (simp add: templated_def get_or_def Let_def)

lemma generate_short:
  "short (r_drafts (snd (generate E U p)))
     = templated U (fst (generate E U p))
         (get_or p ''severity'' (ascii ''SEV3''))
         (or_else (p ''next_update'') (default_cadence U (get_or p ''severity'' (ascii ''SEV3'')))) ''short''"
  by (simp add: generate_def sanitize_fields_two Let_def get_or_def)

lemma generate_detailed:
  "detailed (r_drafts (snd (generate E U p)))
     = templated U (fst (generate E U p))
         (get_or p ''severity'' (ascii ''SEV3''))
         (or_else (p ''next_update'') (default_cadence U (get_or p ''severity'' (ascii ''SEV3'')))) ''detailed''"
  by (simp add: generate_def sanitize_fields_two Let_def get_or_def)

lemma generate_standard:
  "\<not> llm_used (r_meta (snd (generate E U p))) \<Longrightarrow>
   standard (r_drafts (snd (generate E U p)))
     = templated U (fst (generate E U p))
         (get_or p ''severity'' (ascii ''SEV3''))
         (or_else (p ''next_update'') (default_cadence U (get_or p ''severity'' (ascii ''SEV3'')))) ''standard''"
  by (simp add: generate_def sanitize_fields_two Let_def get_or_def split: option.splits)

lemma generate_exports:
  "r_exports (snd (generate E U p))
     = format_templates (stage (r_meta (snd (generate E U p))))
         (standard (r_drafts (snd (generate E U p))))
         (or_else (p ''next_update'') (default_cadence U (get_or p ''severity'' (ascii ''SEV3''))))"
  by (simp add: generate_def sanitize_fields_two Let_def get_or_def)

text \<open>
  C3, amended. Only \<open>summary\<close> and \<open>impact\<close> go through \<open>sanitize_text\<close>; the entries
  \<open>mitigation\<close> and \<open>next_update\<close> of the payload are not touched. A mitigation \<open>m\<close>
  supplied in the request appears verbatim in the short and the detailed draft; a non-empty
  next-update override \<open>n\<close> appears verbatim in both as well. When the backend supplied no
  text (\<open>llm_used\<close> is false), \<open>m\<close> also appears verbatim in the standard draft and in the
  e-mail export, and in the status-page export provided \<open>m\<close> has at most 1963 characters
  (the status page is cut after 2000 characters, and the mitigation starts after the title,
  a blank line and the words \<open>We are\<close>).
\<close>

theorem mitigation_not_sanitized:
  assumes "p ''mitigation'' = Some m"
  shows "fst (generate E U p) ''mitigation'' = Some m
         \<and> fst (generate E U p) ''next_update'' = p ''next_update''
         \<and> sublist m (short (r_drafts (snd (generate E U p))))
         \<and> sublist m (detailed (r_drafts (snd (generate E U p))))
         \<and> (p ''next_update'' = Some n \<and> n \<noteq> [] \<longrightarrow>
              sublist n (short (r_drafts (snd (generate E U p))))
              \<and> sublist n (detailed (r_drafts (snd (generate E U p)))))
         \<and> (\<not> llm_used (r_meta (snd (generate E U p))) \<longrightarrow>
              sublist m (standard (r_drafts (snd (generate E U p))))
              \<and> sublist m (email (r_exports (snd (generate E U p))))
              \<and> (length m \<le> 1963 \<longrightarrow> sublist m (statuspage (r_exports (snd (generate E U p))))))"
proof -
  let ?p' = "fst (generate E U p)"
  let ?sev = "get_or p ''severity'' (ascii ''SEV3'')"
  let ?nxt = "or_else (p ''next_update'') (default_cadence U ?sev)"
  have pm: "?p' ''mitigation'' = Some m"
    using assms by (simp add: generate_payload)
  have pn: "?p' ''next_update'' = p ''next_update''"
    by (simp add: generate_payload)
  have tm: "sublist m (templated U ?p' ?sev ?nxt style)" for style
    unfolding templated_mitigation[of "fst (generate E U p)" m, OF pm] by (rule sublist_mid)
  have tn: "sublist ?nxt (templated U ?p' ?sev ?nxt style)" for style
    by (subst templated_next_update) (rule sublist_mid)
  have nn: "p ''next_update'' = Some n \<and> n \<noteq> [] \<Longrightarrow> ?nxt = n"
    by (simp add: or_else_def)
  have c1: "sublist m (short (r_drafts (snd (generate E U p))))"
    unfolding generate_short by (rule tm)
  have c2: "sublist m (detailed (r_drafts (snd (generate E U p))))"
    unfolding generate_detailed by (rule tm)
  have c3: "p ''next_update'' = Some n \<and> n \<noteq> [] \<Longrightarrow>
      sublist n (short (r_drafts (snd (generate E U p))))
      \<and> sublist n (detailed (r_drafts (snd (generate E U p))))"
    using tn[of "''short''"] tn[of "''detailed''"] nn
    by (simp add: generate_short generate_detailed)
  have c4: "sublist m (standard (r_drafts (snd (generate E U p))))
      \<and> sublist m (email (r_exports (snd (generate E U p))))
      \<and> (length m \<le> 1963 \<longrightarrow> sublist m (statuspage (r_exports (snd (generate E U p)))))"
    if u: "\<not> llm_used (r_meta (snd (generate E U p)))"
  proof -
    let ?stg = "stage (r_meta (snd (generate E U p)))"
    obtain rest where std: "standard (r_drafts (snd (generate E U p))) = ascii ''We are '' @ m @ rest"
      unfolding generate_standard[OF u] templated_mitigation[of "fst (generate E U p)" m, OF pm] by blast
    have s1: "sublist m (standard (r_drafts (snd (generate E U p))))"
      unfolding std by (rule sublist_mid)
    have em: "email (r_exports (snd (generate E U p)))
        = (email_subject ?stg @ [10, 10] @ ascii ''We are '') @ m @ (rest @ [10, 10] @ ascii ''Next update: '' @ ?nxt)"
      by (simp add: generate_exports format_templates_email std)
    have s2: "sublist m (email (r_exports (snd (generate E U p))))"
      unfolding em by (rule sublist_mid)
    have sp: "statuspage (r_exports (snd (generate E U p)))
        = take 2000 ((statuspage_title ?stg @ [10, 10] @ ascii ''We are '') @ m
            @ (rest @ [10, 10] @ ascii ''Next update: '' @ ?nxt))"
      by (simp add: generate_exports format_templates_statuspage std)
    have s3: "sublist m (statuspage (r_exports (snd (generate E U p))))" if "length m \<le> 1963"
      unfolding sp
    proof (rule sublist_in_take)
      show "length (statuspage_title ?stg @ [10, 10] @ ascii ''We are '') + length m \<le> 2000"
        using statuspage_title_length[of ?stg] that by (simp add: ascii_def)
    qed
    show ?thesis using s1 s2 s3 by blast
  qed
  show ?thesis using pm pn c1 c2 c3 c4 by blast
qed

lemma mitigation_supplied:
  "[''mitigation'' \<mapsto> ascii ''rebooting 10.0.0.1'', ''next_update'' \<mapsto> ascii ''ask bob@corp.example'']
     ''mitigation'' = Some (ascii ''rebooting 10.0.0.1'')"
  by simp

theorem mitigation_not_sanitized_witness:
  "sublist (ascii ''rebooting 10.0.0.1'')
     (short (r_drafts (snd (generate no_backend plain_db
        [''mitigation'' \<mapsto> ascii ''rebooting 10.0.0.1'', ''next_update'' \<mapsto> ascii ''ask bob@corp.example'']))))
   \<and> sublist (ascii ''ask bob@corp.example'')
     (detailed (r_drafts (snd (generate no_backend plain_db
        [''mitigation'' \<mapsto> ascii ''rebooting 10.0.0.1'', ''next_update'' \<mapsto> ascii ''ask bob@corp.example'']))))
   \<and> sublist (ascii ''rebooting 10.0.0.1'')
     (statuspage (r_exports (snd (generate no_backend plain_db
        [''mitigation'' \<mapsto> ascii ''rebooting 10.0.0.1'', ''next_update'' \<mapsto> ascii ''ask bob@corp.example'']))))
   \<and> sublist (ascii ''rebooting 10.0.0.1'')
     (email (r_exports (snd (generate no_backend plain_db
        [''mitigation'' \<mapsto> ascii ''rebooting 10.0.0.1'', ''next_update'' \<mapsto> ascii ''ask bob@corp.example'']))))"
proof -
  note t = mitigation_not_sanitized[where p = "[''mitigation'' \<mapsto> ascii ''rebooting 10.0.0.1'',
        ''next_update'' \<mapsto> ascii ''ask bob@corp.example'']" and m = "ascii ''rebooting 10.0.0.1''"
      and n = "ascii ''ask bob@corp.example''" and E = no_backend and U = plain_db, OF mitigation_supplied]
  have n: "[''mitigation'' \<mapsto> ascii ''rebooting 10.0.0.1'', ''next_update'' \<mapsto> ascii ''ask bob@corp.example'']
      ''next_update'' = Some (ascii ''ask bob@corp.example'') \<and> ascii ''ask bob@corp.example'' \<noteq> []"
    by (simp add: ascii_def)
  have u: "\<not> llm_used (r_meta (snd (generate no_backend plain_db
        [''mitigation'' \<mapsto> ascii ''rebooting 10.0.0.1'', ''next_update'' \<mapsto> ascii ''ask bob@corp.example''])))"
    by code_simp
  have l: "length (ascii ''rebooting 10.0.0.1'') \<le> 1963"
    by (simp add: ascii_def)
  show ?thesis using t n u l by blast
qed

section \<open>The stack-trace filter on path lines\<close>

text \<open>
  C4 says that a line with a path-like fragment \<open>'' at /''\<close> or \<open>'' at ''\<close> followed by a
  backslash is dropped. The pattern of the filter asks for more: after \<open>'' at ''\<close> it wants a
  backslash and a slash, or two backslashes. So the line \<open>''  at /srv/app''\<close> is kept, with
  no note, and so is \<open>''  at ''\<close>, one backslash, \<open>srv\<close>; the line with a backslash and a
  slash after \<open>'' at ''\<close> is dropped with one note.
\<close>

theorem path_lines_kept:
  "sanitize_text plain_db (ascii ''  at /srv/app'')
     = \<lparr>text_of = ascii ''  at /srv/app'', notes_of = []\<rparr>
   \<and> sanitize_text plain_db (ascii ''  at '' @ [92] @ ascii ''srv'')
     = \<lparr>text_of = ascii ''  at '' @ [92] @ ascii ''srv'', notes_of = []\<rparr>
   \<and> sanitize_text plain_db (ascii ''  at '' @ [92, 47] @ ascii ''srv'')
     = \<lparr>text_of = [], notes_of = [\<lparr>token = ascii ''stack-trace-line'', action = ascii ''removed''\<rparr>]\<rparr>"
  by code_simp

section \<open>Properties of the matching engine\<close>

declare rep_ends.simps [simp del]
declare find_from.simps [simp del]
declare sub_from.simps [simp del]

text \<open>
  \<open>iter f n k i j\<close>: position \<open>j\<close> is reached from \<open>i\<close> by exactly \<open>k\<close> rounds of \<open>f\<close>, each
  of which moves forward and stays within \<open>n\<close>.
\<close>

fun iter :: "(nat \<Rightarrow> nat list) \<Rightarrow> nat \<Rightarrow> nat \<Rightarrow> nat \<Rightarrow> nat \<Rightarrow> bool" where
  "iter f n 0 i j = (j = i)"
| "iter f n (Suc k) i j = list_ex (\<lambda>m. i < m \<and> m \<le> n \<and> iter f n k m j) (f i)"

lemma iter_ge: "iter f n k i j \<Longrightarrow> i \<le> j"
proof (induction k arbitrary: i)
  case 0
  then show ?case by simp
next
  case (Suc k)
  then obtain m where "i < m" "iter f n k m j"
    by (auto simp: list_ex_iff)
  with Suc.IH[of m] show ?case by simp
qed

lemma iter_le: "iter f n k i j \<Longrightarrow> i \<le> n \<Longrightarrow> j \<le> n"
proof (induction k arbitrary: i)
  case 0
  then show ?case by simp
next
  case (Suc k)
  then obtain m where "m \<le> n" "iter f n k m j"
    by (auto simp: list_ex_iff)
  with Suc.IH[of m] show ?case by simp
qed

lemma rep_ends_iff:
  "j \<in> set (rep_ends f n lo hi i) \<longleftrightarrow>
     (\<exists>k. lo \<le> k \<and> (case hi of None \<Rightarrow> True | Some h \<Rightarrow> k \<le> h) \<and> iter f n k i j)"
proof (induction f n lo hi i arbitrary: j rule: rep_ends.induct)
  case (1 f n lo hi i)
  let ?hi' = "map_option (\<lambda>h. h - 1) hi"
  let ?ok = "\<lambda>hi k. case hi of None \<Rightarrow> True | Some h \<Rightarrow> k \<le> (h :: nat)"
  have IH: "j \<in> set (rep_ends f n (lo - 1) ?hi' m) \<longleftrightarrow>
      (\<exists>k. lo - 1 \<le> k \<and> ?ok ?hi' k \<and> iter f n k m j)"
    if "hi \<noteq> Some 0" "m \<in> set (f i)" "i < m \<and> m \<le> n" for m j
    using "1.IH"[OF that] .
  show ?case
  proof
    assume "j \<in> set (rep_ends f n lo hi i)"
    then consider
      (more) m where "hi \<noteq> Some 0" "m \<in> set (f i)" "i < m \<and> m \<le> n"
        "j \<in> set (rep_ends f n (lo - 1) ?hi' m)"
      | (stop) "lo = 0" "j = i"
      by (subst (asm) rep_ends.simps) (auto split: if_splits)
    then show "\<exists>k. lo \<le> k \<and> ?ok hi k \<and> iter f n k i j"
    proof cases
      case more
      from IH[OF more(1-3)] more(4) obtain k where
        k: "lo - 1 \<le> k" "?ok ?hi' k" "iter f n k m j" by blast
      have "lo \<le> Suc k" using k(1) by simp
      moreover have "?ok hi (Suc k)"
        using k(2) more(1) by (cases hi) auto
      moreover have "iter f n (Suc k) i j"
        using more(2,3) k(3) by (auto simp: list_ex_iff)
      ultimately show ?thesis by blast
    next
      case stop
      have "?ok hi 0" by (cases hi) auto
      with stop show ?thesis by (intro exI[of _ 0]) simp
    qed
  next
    assume "\<exists>k. lo \<le> k \<and> ?ok hi k \<and> iter f n k i j"
    then obtain k where k: "lo \<le> k" "?ok hi k" "iter f n k i j" by blast
    show "j \<in> set (rep_ends f n lo hi i)"
    proof (cases k)
      case 0
      with k show ?thesis by (subst rep_ends.simps) simp
    next
      case (Suc k')
      with k(3) obtain m where m: "m \<in> set (f i)" "i < m \<and> m \<le> n" "iter f n k' m j"
        by (auto simp: list_ex_iff)
      have nz: "hi \<noteq> Some 0" using k(2) Suc by (cases hi) auto
      have "lo - 1 \<le> k'" using k(1) Suc by simp
      moreover have "?ok ?hi' k'" using k(2) Suc by (cases hi) auto
      ultimately have "j \<in> set (rep_ends f n (lo - 1) ?hi' m)"
        using IH[OF nz m(1,2)] m(3) by blast
      with nz m show ?thesis by (subst rep_ends.simps) auto
    qed
  qed
qed

lemma ends_ge: "j \<in> set (ends U ic r s i) \<Longrightarrow> i \<le> j"
proof (induction r arbitrary: i j)
  case (Rep lo hi r)
  then show ?case by (auto simp: rep_ends_iff dest: iter_ge)
qed (fastforce split: if_splits)+

lemma ends_le: "j \<in> set (ends U ic r s i) \<Longrightarrow> i \<le> length s \<Longrightarrow> j \<le> length s"
proof (induction r arbitrary: i j)
  case (Lit w)
  then show ?case by (auto simp: lit_at_def split: if_splits)
next
  case (Rep lo hi r)
  then show ?case by (auto simp: rep_ends_iff dest: iter_le)
qed (fastforce split: if_splits)+

text \<open>
  \<open>consumes U ic r c\<close>: some literal or set of \<open>r\<close> accepts the code point \<open>c\<close>. Every
  character inside a match of \<open>r\<close> is of this kind.
\<close>

fun consumes :: "unicode_db \<Rightarrow> bool \<Rightarrow> regex \<Rightarrow> nat \<Rightarrow> bool" where
  "consumes U ic (Lit w) c = list_ex (\<lambda>d. item_match U ic (Ch d) c) w"
| "consumes U ic (Set its) c = list_ex (\<lambda>it. item_match U ic it c) its"
| "consumes U ic WordB c = False"
| "consumes U ic (Seq a b) c = (consumes U ic a c \<or> consumes U ic b c)"
| "consumes U ic (Alt a b) c = (consumes U ic a c \<or> consumes U ic b c)"
| "consumes U ic (Rep lo hi r) c = consumes U ic r c"

lemma lit_at_nth:
  assumes "lit_at U ic w s i" "k < length w"
  shows "item_match U ic (Ch (w ! k)) (s ! (i + k))"
proof -
  from assms(1) have len: "i + length w \<le> length s"
    and all: "list_all2 (\<lambda>c x. item_match U ic (Ch c) x) w (take (length w) (drop i s))"
    by (auto simp: lit_at_def)
  from all assms(2) have "item_match U ic (Ch (w ! k)) (take (length w) (drop i s) ! k)"
    by (auto simp: list_all2_conv_all_nth)
  moreover have "take (length w) (drop i s) ! k = s ! (i + k)"
    using assms(2) len by simp
  ultimately show ?thesis by simp
qed

lemma iter_consumes:
  assumes step: "\<And>i m k. m \<in> set (f i) \<Longrightarrow> i \<le> k \<Longrightarrow> k < m \<Longrightarrow> P k"
  shows "iter f n c i j \<Longrightarrow> i \<le> k \<Longrightarrow> k < j \<Longrightarrow> P k"
proof (induction c arbitrary: i)
  case 0
  then show ?case by simp
next
  case (Suc c)
  then obtain m where m: "m \<in> set (f i)" "i < m" "iter f n c m j"
    by (auto simp: list_ex_iff)
  show ?case
  proof (cases "k < m")
    case True
    with step[OF m(1) Suc.prems(2)] show ?thesis by simp
  next
    case False
    with Suc.IH[OF m(3)] Suc.prems(3) show ?thesis by simp
  qed
qed

lemma ends_consumes:
  "j \<in> set (ends U ic r s i) \<Longrightarrow> i \<le> k \<Longrightarrow> k < j \<Longrightarrow> consumes U ic r (s ! k)"
proof (induction r arbitrary: i j k)
  case (Lit w)
  then have l: "lit_at U ic w s i" and j: "j = i + length w"
    by (auto split: if_splits)
  from Lit.prems j have "k - i < length w" by simp
  from lit_at_nth[OF l this] Lit.prems(2) have "item_match U ic (Ch (w ! (k - i))) (s ! k)"
    by simp
  with \<open>k - i < length w\<close> show ?case
    by (auto simp: list_ex_iff)
next
  case (Set its)
  then have "k = i" by (auto split: if_splits)
  with Set show ?case by (auto split: if_splits)
next
  case WordB
  then show ?case by (auto split: if_splits)
next
  case (Seq a b)
  from Seq.prems(1) obtain m where m: "m \<in> set (ends U ic a s i)" "j \<in> set (ends U ic b s m)"
    by auto
  show ?case
  proof (cases "k < m")
    case True
    with Seq.IH(1)[OF m(1) Seq.prems(2)] show ?thesis by simp
  next
    case False
    with Seq.IH(2)[OF m(2) _ Seq.prems(3)] show ?thesis by simp
  qed
next
  case (Alt a b)
  then show ?case by auto
next
  case (Rep lo hi r)
  from Rep.prems(1) obtain c where "iter (ends U ic r s) (length s) c i j"
    by (auto simp: rep_ends_iff)
  from iter_consumes[of "ends U ic r s" "\<lambda>k. consumes U ic r (s ! k)", OF _ this Rep.prems(2,3)] Rep.IH
  show ?case by simp
qed

text \<open>\<open>nonnull r\<close>: no match of \<open>r\<close> is empty.\<close>

fun nonnull :: "regex \<Rightarrow> bool" where
  "nonnull (Lit w) = (w \<noteq> [])"
| "nonnull (Set its) = True"
| "nonnull WordB = False"
| "nonnull (Seq a b) = (nonnull a \<or> nonnull b)"
| "nonnull (Alt a b) = (nonnull a \<and> nonnull b)"
| "nonnull (Rep lo hi r) = (0 < lo)"

lemma ends_nonnull: "nonnull r \<Longrightarrow> j \<in> set (ends U ic r s i) \<Longrightarrow> i < j"
proof (induction r arbitrary: i j)
  case (Seq a b)
  from Seq.prems(2) obtain m where m: "m \<in> set (ends U ic a s i)" "j \<in> set (ends U ic b s m)"
    by auto
  from ends_ge[OF m(1)] ends_ge[OF m(2)] Seq.IH(1)[OF _ m(1)] Seq.IH(2)[OF _ m(2)] Seq.prems(1)
  show ?case by auto
next
  case (Rep lo hi r)
  from Rep.prems obtain c where c: "lo \<le> c" "iter (ends U ic r s) (length s) c i j"
    by (auto simp: rep_ends_iff)
  with Rep.prems(1) obtain c' where "c = Suc c'" by (cases c) auto
  with c(2) obtain m where "i < m" "iter (ends U ic r s) (length s) c' m j"
    by (auto simp: list_ex_iff)
  with iter_ge[of "ends U ic r s" "length s" c' m j] show ?case by simp
qed (auto split: if_splits)

text \<open>Patterns that begin, or end, with \<^verbatim>\<open>\b\<close>.\<close>

fun starts_wb :: "regex \<Rightarrow> bool" where
  "starts_wb WordB = True"
| "starts_wb (Seq a b) = starts_wb a"
| "starts_wb r = False"

fun ends_wb :: "regex \<Rightarrow> bool" where
  "ends_wb WordB = True"
| "ends_wb (Seq a b) = ends_wb b"
| "ends_wb r = False"

fun has_wb :: "regex \<Rightarrow> bool" where
  "has_wb WordB = True"
| "has_wb (Seq a b) = (has_wb a \<or> has_wb b)"
| "has_wb (Alt a b) = (has_wb a \<or> has_wb b)"
| "has_wb (Rep lo hi r) = has_wb r"
| "has_wb r = False"

lemma ends_starts_wb: "starts_wb r \<Longrightarrow> j \<in> set (ends U ic r s i) \<Longrightarrow> at_boundary U s i"
  by (induction r arbitrary: i j rule: starts_wb.induct) (auto split: if_splits)

lemma ends_ends_wb: "ends_wb r \<Longrightarrow> j \<in> set (ends U ic r s i) \<Longrightarrow> at_boundary U s j"
  by (induction r arbitrary: i j rule: ends_wb.induct) (auto split: if_splits)

text \<open>
  A match depends only on the characters it spans and, through \<^verbatim>\<open>\b\<close>, on whether the
  characters next to it are word characters.
\<close>

definition word_before :: "unicode_db \<Rightarrow> pystr \<Rightarrow> bool" where
  "word_before U pre = (pre \<noteq> [] \<and> is_word U (last pre))"

definition word_after :: "unicode_db \<Rightarrow> pystr \<Rightarrow> bool" where
  "word_after U post = (post \<noteq> [] \<and> is_word U (hd post))"

lemma at_boundary_app:
  assumes "a \<le> length m"
  shows "at_boundary U (pre @ m @ post) (length pre + a) =
     ((if 0 < a then is_word U (m ! (a - 1)) else word_before U pre)
      \<noteq> (if a < length m then is_word U (m ! a) else word_after U post))"
proof -
  have L: "(0 < length pre + a \<and> length pre + a \<le> length (pre @ m @ post)
            \<and> is_word U ((pre @ m @ post) ! (length pre + a - 1)))
          = (if 0 < a then is_word U (m ! (a - 1)) else word_before U pre)"
  proof (cases "0 < a")
    case True
    then have "length pre + a - 1 = length pre + (a - 1)" by simp
    then have "(pre @ m @ post) ! (length pre + a - 1) = (m @ post) ! (a - 1)"
      by (simp only: nth_append_length_plus)
    also have "\<dots> = m ! (a - 1)"
    proof -
      have "a - 1 < length m" using True assms by simp
      then show ?thesis by (simp add: nth_append)
    qed
    finally show ?thesis using True assms by simp
  next
    case False
    then have a0: "a = 0" by simp
    show ?thesis
    proof (cases "pre = []")
      case True
      with a0 show ?thesis by (simp add: word_before_def)
    next
      case False
      then have "(pre @ m @ post) ! (length pre - 1) = last pre"
        by (simp add: nth_append last_conv_nth)
      with False a0 show ?thesis by (simp add: word_before_def)
    qed
  qed
  have R: "(length pre + a < length (pre @ m @ post) \<and> is_word U ((pre @ m @ post) ! (length pre + a)))
          = (if a < length m then is_word U (m ! a) else word_after U post)"
  proof (cases "a < length m")
    case True
    then show ?thesis by (simp add: nth_append)
  next
    case False
    with assms have am: "a = length m" by simp
    show ?thesis
    proof (cases "post = []")
      case True
      with am show ?thesis by (simp add: word_after_def)
    next
      case False
      then have "(pre @ m @ post) ! (length pre + length m) = hd post"
        by (simp add: nth_append hd_conv_nth)
      with False am show ?thesis by (simp add: word_after_def)
    qed
  qed
  show ?thesis
    unfolding at_boundary_def using L R by simp
qed

lemma lit_at_app:
  assumes "a + length w \<le> length m"
  shows "lit_at U ic w (pre @ m @ post) (length pre + a) = lit_at U ic w m a"
proof -
  have "take (length w) (drop (length pre + a) (pre @ m @ post)) = take (length w) (drop a m)"
    using assms by simp
  then show ?thesis using assms by (simp add: lit_at_def)
qed

lemma iter_local:
  assumes step: "\<And>a c. a1 \<le> a \<Longrightarrow> a \<le> c \<Longrightarrow> c \<le> b \<Longrightarrow> p + c \<in> set (f (p + a)) \<Longrightarrow> q + c \<in> set (g (q + a))"
    and nq: "q + b \<le> n'"
  shows "a1 \<le> a \<Longrightarrow> a \<le> b \<Longrightarrow> iter f n k (p + a) (p + b) \<Longrightarrow> iter g n' k (q + a) (q + b)"
proof (induction k arbitrary: a)
  case 0
  then show ?case by simp
next
  case (Suc k)
  then obtain m where m: "m \<in> set (f (p + a))" "p + a < m" "iter f n k m (p + b)"
    by (auto simp: list_ex_iff)
  define c where "c = m - p"
  from iter_ge[OF m(3)] m(2) have c: "m = p + c" "a < c" "c \<le> b"
    by (simp_all add: c_def)
  from step[of a c] m(1) c Suc.prems(1) have "q + c \<in> set (g (q + a))" by simp
  moreover from Suc.IH[of c] m(3) c Suc.prems(1) have "iter g n' k (q + c) (q + b)" by simp
  moreover have "q + a < q + c \<and> q + c \<le> n'" using c nq by simp
  ultimately have "\<exists>m'\<in>set (g (q + a)). q + a < m' \<and> m' \<le> n' \<and> iter g n' k m' (q + b)"
    by (intro bexI[of _ "q + c"]) simp_all
  then show ?case by (simp add: list_ex_iff)
qed

lemma ends_local_imp:
  assumes L: "has_wb r \<longrightarrow> a0 = 0 \<longrightarrow> word_before U pre = word_before U pre'"
    and R: "has_wb r \<longrightarrow> b0 = length m \<longrightarrow> word_after U post = word_after U post'"
  shows "a0 \<le> a \<Longrightarrow> a \<le> b \<Longrightarrow> b \<le> b0 \<Longrightarrow> b0 \<le> length m \<Longrightarrow>
     length pre + b \<in> set (ends U ic r (pre @ m @ post) (length pre + a)) \<Longrightarrow>
     length pre' + b \<in> set (ends U ic r (pre' @ m @ post') (length pre' + a))"
  using L R
proof (induction r arbitrary: a b)
  case (Lit w)
  from Lit.prems(5) have b: "b = a + length w"
    by (auto split: if_splits)
  with Lit.prems lit_at_app[of a w m U ic pre post] lit_at_app[of a w m U ic pre' post']
  show ?case by (auto split: if_splits)
next
  case (Set its)
  from Set.prems(5) have b: "b = Suc a"
    by (auto split: if_splits)
  with Set.prems have am: "a < length m" by simp
  then have "(pre @ m @ post) ! (length pre + a) = m ! a" "(pre' @ m @ post') ! (length pre' + a) = m ! a"
    by (simp_all add: nth_append)
  with Set.prems b am show ?case by (auto split: if_splits)
next
  case WordB
  from WordB.prems(5) have b: "b = a" and ab: "at_boundary U (pre @ m @ post) (length pre + a)"
    by (auto split: if_splits)
  from WordB.prems have am: "a \<le> length m" by simp
  from WordB.prems have ctxL: "a = 0 \<Longrightarrow> word_before U pre = word_before U pre'"
    by simp
  from WordB.prems b have ctxR: "a = length m \<Longrightarrow> word_after U post = word_after U post'"
    by simp
  have "(if 0 < a then is_word U (m ! (a - 1)) else word_before U pre')
        = (if 0 < a then is_word U (m ! (a - 1)) else word_before U pre)"
    using ctxL by simp
  moreover have "(if a < length m then is_word U (m ! a) else word_after U post')
        = (if a < length m then is_word U (m ! a) else word_after U post)"
    using ctxR am by simp
  ultimately have "at_boundary U (pre' @ m @ post') (length pre' + a)
      = at_boundary U (pre @ m @ post) (length pre + a)"
    unfolding at_boundary_app[OF am] by simp
  with ab b show ?case by simp
next
  case (Seq r1 r2)
  from Seq.prems(5) obtain k where k: "k \<in> set (ends U ic r1 (pre @ m @ post) (length pre + a))"
      "length pre + b \<in> set (ends U ic r2 (pre @ m @ post) k)"
    by auto
  define c where "c = k - length pre"
  from ends_ge[OF k(1)] ends_ge[OF k(2)] have c: "k = length pre + c" "a \<le> c" "c \<le> b"
    by (simp_all add: c_def)
  from Seq.IH(1)[of a c] k(1) c Seq.prems
  have 1: "length pre' + c \<in> set (ends U ic r1 (pre' @ m @ post') (length pre' + a))" by simp
  from Seq.IH(2)[of c b] k(2) c Seq.prems
  have 2: "length pre' + b \<in> set (ends U ic r2 (pre' @ m @ post') (length pre' + c))" by simp
  from 1 2 show ?case by auto
next
  case (Alt r1 r2)
  from Alt.prems(5) consider
    "length pre + b \<in> set (ends U ic r1 (pre @ m @ post) (length pre + a))"
    | "length pre + b \<in> set (ends U ic r2 (pre @ m @ post) (length pre + a))"
    by auto
  then show ?case
  proof cases
    case 1
    with Alt.IH(1)[of a b] Alt.prems show ?thesis by simp
  next
    case 2
    with Alt.IH(2)[of a b] Alt.prems show ?thesis by simp
  qed
next
  case (Rep lo hi r)
  from Rep.prems(5) obtain k where k: "lo \<le> k" "case hi of None \<Rightarrow> True | Some h \<Rightarrow> k \<le> h"
      "iter (ends U ic r (pre @ m @ post)) (length (pre @ m @ post)) k (length pre + a) (length pre + b)"
    by (auto simp: rep_ends_iff)
  have step: "length pre' + c \<in> set (ends U ic r (pre' @ m @ post') (length pre' + a'))"
    if "a \<le> a'" "a' \<le> c" "c \<le> b" "length pre + c \<in> set (ends U ic r (pre @ m @ post) (length pre + a'))" for a' c
    using Rep.IH[of a' c] that Rep.prems by simp
  have "iter (ends U ic r (pre' @ m @ post')) (length (pre' @ m @ post')) k (length pre' + a) (length pre' + b)"
    using iter_local[of a b "length pre" "ends U ic r (pre @ m @ post)" "length pre'"
        "ends U ic r (pre' @ m @ post')" "length (pre' @ m @ post')" a "length (pre @ m @ post)" k]
      step k(3) Rep.prems(1-4) by simp
  with k(1,2) show ?case by (auto simp: rep_ends_iff)
qed

lemma find_from_None:
  "find_from U ic r s pos = None \<Longrightarrow> pos \<le> i \<Longrightarrow> i \<le> length s \<Longrightarrow> ends U ic r s i = []"
proof (induction U ic r s pos rule: find_from.induct)
  case (1 U ic r s pos)
  from "1.prems" have nl: "\<not> length s < pos" by simp
  from "1.prems"(1) nl have e: "ends U ic r s pos = []"
    by (subst (asm) find_from.simps) (simp split: list.splits)
  from "1.prems"(1) nl e have rest: "find_from U ic r s (Suc pos) = None"
    by (subst (asm) find_from.simps) simp
  show ?case
  proof (cases "i = pos")
    case True
    with e show ?thesis by simp
  next
    case False
    with "1.prems" have "Suc pos \<le> i" by simp
    from "1.IH"[OF nl e rest this "1.prems"(3)] show ?thesis .
  qed
qed

lemma find_from_Some:
  "find_from U ic r s pos = Some (i, j) \<Longrightarrow>
     pos \<le> i \<and> i \<le> length s \<and> j \<in> set (ends U ic r s i)
     \<and> (\<forall>k. pos \<le> k \<and> k < i \<longrightarrow> ends U ic r s k = [])"
proof (induction U ic r s pos rule: find_from.induct)
  case (1 U ic r s pos)
  from "1.prems" have nl: "\<not> length s < pos"
    by (subst (asm) find_from.simps) (simp split: if_splits)
  show ?case
  proof (cases "ends U ic r s pos")
    case Nil
    with "1.prems" nl have "find_from U ic r s (Suc pos) = Some (i, j)"
      by (subst (asm) find_from.simps) simp
    from "1.IH"[OF nl Nil this] have
      f: "Suc pos \<le> i" "i \<le> length s" "j \<in> set (ends U ic r s i)"
      and g: "\<And>k. Suc pos \<le> k \<Longrightarrow> k < i \<Longrightarrow> ends U ic r s k = []"
      by auto
    have "ends U ic r s k = []" if "pos \<le> k" "k < i" for k
    proof (cases "k = pos")
      case True
      with Nil show ?thesis by simp
    next
      case False
      with that g[of k] show ?thesis by simp
    qed
    with f show ?thesis by auto
  next
    case (Cons j' js)
    with "1.prems" nl have "i = pos" "j = j'"
      by (subst (asm) find_from.simps, simp)+
    with Cons nl show ?thesis by auto
  qed
qed

lemma re_search_iff:
  "re_search U ic r s \<longleftrightarrow> (\<exists>i j. i \<le> length s \<and> j \<in> set (ends U ic r s i))"
proof
  assume "re_search U ic r s"
  then have "find_from U ic r s 0 \<noteq> None"
    by (simp add: re_search_def)
  then obtain ij where "find_from U ic r s 0 = Some ij"
    by auto
  then obtain i j where "find_from U ic r s 0 = Some (i, j)"
    by (cases ij) simp
  from find_from_Some[OF this] show "\<exists>i j. i \<le> length s \<and> j \<in> set (ends U ic r s i)"
    by blast
next
  assume "\<exists>i j. i \<le> length s \<and> j \<in> set (ends U ic r s i)"
  then obtain i j where ij: "i \<le> length s" "j \<in> set (ends U ic r s i)" by blast
  show "re_search U ic r s"
  proof (rule ccontr)
    assume "\<not> re_search U ic r s"
    then have "find_from U ic r s 0 = None" by (simp only: re_search_def not_not)
    from find_from_None[OF this _ ij(1)] ij(2) show False by simp
  qed
qed

lemma word_before_append: "v \<noteq> [] \<Longrightarrow> word_before U (u @ v) = word_before U v"
  by (simp add: word_before_def)

lemma word_after_append: "u \<noteq> [] \<Longrightarrow> word_after U (u @ v) = word_after U u"
  by (simp add: word_after_def)

lemma at_boundary_split: "at_boundary U (u @ v) (length u) = (word_before U u \<noteq> word_after U v)"
  using at_boundary_app[of 0 "[]" U u v] by simp

lemma brackets_not_word: "\<not> is_word U 91" "\<not> is_word U 93"
  by (simp_all add: is_word_def ascii_alnum_def)

lemma span_in_segment:
  assumes span: "a0 < b0" "b0 \<le> length seg"
      "length pre + b0 \<in> set (ends U ic Q (pre @ seg @ rest) (length pre + a0))"
    and L: "has_wb Q \<longrightarrow> a0 = 0 \<longrightarrow> word_before U pre = word_before U spre"
    and R: "has_wb Q \<longrightarrow> b0 = length seg \<longrightarrow> word_after U rest = word_after U srest"
  shows "length spre + b0 \<in> set (ends U ic Q (spre @ seg @ srest) (length spre + a0))"
  using ends_local_imp[OF L R, of a0 b0 ic] span by simp

lemma sub_from_None: "find_from U ic P s pos = None \<Longrightarrow> sub_from U ic P repl s pos = drop pos s"
  by (subst sub_from.simps) simp

lemma sub_from_Some:
  "find_from U ic P s pos = Some (i, j) \<Longrightarrow> i < j \<Longrightarrow>
   sub_from U ic P repl s pos = take (i - pos) (drop pos s) @ repl @ sub_from U ic P repl s j"
  by (subst sub_from.simps) simp

lemma seg_take:
  assumes "pos \<le> i" "i \<le> length s"
  shows "take i s = take pos s @ take (i - pos) (drop pos s)"
proof -
  have 1: "take pos (take i s) = take pos s"
    using assms by (simp add: min_def)
  have 2: "drop pos (take i s) = take (i - pos) (drop pos s)"
    by (simp add: drop_take)
  have "take i s = take pos (take i s) @ drop pos (take i s)"
    by (simp only: append_take_drop_id)
  then show ?thesis by (simp only: 1 2)
qed

lemma seg_split:
  assumes "pos \<le> i" "i \<le> length s"
  shows "take pos s @ take (i - pos) (drop pos s) @ drop i s = s"
proof -
  have "(take pos s @ take (i - pos) (drop pos s)) @ drop i s = s"
    unfolding seg_take[OF assms, symmetric] by simp
  then show ?thesis by simp
qed

lemma ctx_left:
  assumes C: "(pre = [] \<and> pos = 0) \<or> (pre \<noteq> [] \<and> last pre = 93 \<and> at_boundary U s pos)"
    and ab: "at_boundary U (pre @ t) (length pre)"
    and hd: "word_after U t = word_after U (drop pos s)"
    and le: "pos \<le> length s"
  shows "word_before U pre = word_before U (take pos s)"
proof (cases "pre = []")
  case True
  with C show ?thesis by simp
next
  case False
  with C have l: "last pre = 93" and bs: "at_boundary U s pos" by auto
  from False l have wp: "\<not> word_before U pre"
    by (simp add: word_before_def brackets_not_word)
  from ab wp have "word_after U t"
    by (simp add: at_boundary_split)
  with hd have wa: "word_after U (drop pos s)" by simp
  have "at_boundary U (take pos s @ drop pos s) (length (take pos s))
      = (word_before U (take pos s) \<noteq> word_after U (drop pos s))"
    by (rule at_boundary_split)
  with bs le have "word_before U (take pos s) \<noteq> word_after U (drop pos s)"
    by simp
  with wa wp show ?thesis by simp
qed

lemma ctx_right:
  assumes ab: "at_boundary U (u @ 91 # v) (length u)"
    and bs: "at_boundary U s i"
    and lastu: "word_before U u = word_before U (take i s)"
    and le: "i \<le> length s"
  shows "word_after U (91 # v) = word_after U (drop i s)"
proof -
  have wa: "\<not> word_after U (91 # v)"
    by (simp add: word_after_def brackets_not_word)
  with ab have "word_before U u" by (simp add: at_boundary_split)
  with lastu have wb: "word_before U (take i s)" by simp
  have "at_boundary U (take i s @ drop i s) (length (take i s))
      = (word_before U (take i s) \<noteq> word_after U (drop i s))"
    by (rule at_boundary_split)
  with bs le have "word_before U (take i s) \<noteq> word_after U (drop i s)"
    by simp
  with wb wa show ?thesis by simp
qed

text \<open>
  The substitution theorem. \<open>P\<close> is the pattern that is replaced, by a placeholder
  \<open>repl\<close> in square brackets; \<open>Q\<close> is a pattern whose characters are never brackets and
  that does not match inside the placeholder. If \<open>Q\<close> is \<open>P\<close> itself, or if \<open>Q\<close> did not
  match in the source text, then \<open>Q\<close> does not match in the result. A pattern with
  \<^verbatim>\<open>\b\<close> must begin and end with it, and so must \<open>P\<close>.
\<close>

lemma sub_from_clean:
  assumes nP: "nonnull P" and nQ: "nonnull Q"
    and rep: "repl = 91 # mid @ [93]"
    and c91: "\<not> consumes U ic Q 91" and c93: "\<not> consumes U ic Q 93"
    and inR: "\<not> re_search U ic Q repl"
    and wb: "has_wb Q \<longrightarrow> starts_wb Q \<and> ends_wb Q \<and> starts_wb P \<and> ends_wb P"
    and src: "(Q = P \<and> ic = icp) \<or> \<not> re_search U ic Q s"
  shows "(pre = [] \<and> pos = 0) \<or> (pre \<noteq> [] \<and> last pre = 93 \<and> (has_wb Q \<longrightarrow> at_boundary U s pos)) \<Longrightarrow>
         length pre \<le> a \<Longrightarrow> a \<le> length (pre @ sub_from U icp P repl s pos) \<Longrightarrow>
         b \<notin> set (ends U ic Q (pre @ sub_from U icp P repl s pos) a)"
proof (induction "Suc (length s) - pos" arbitrary: pos pre rule: less_induct)
  case less
  let ?t = "sub_from U icp P repl s pos"
  let ?x = "pre @ ?t"
  note C = less.prems(1)
  show ?case
  proof
    assume mem: "b \<in> set (ends U ic Q ?x a)"
    from ends_nonnull[OF nQ mem] have ab: "a < b" .
    from ends_le[OF mem less.prems(3)] have bx: "b \<le> length ?x" .
    have cons: "consumes U ic Q (?x ! k)" if "a \<le> k" "k < b" for k
      using ends_consumes[OF mem that] .
    have gap: False
      if "b' \<in> set (ends U ic Q s a')" "a' \<le> length s" "ends U icp P s a' = []" for a' b'
      using src that by (auto simp: re_search_iff)
    have C': "has_wb Q \<Longrightarrow> (pre = [] \<and> pos = 0) \<or> (pre \<noteq> [] \<and> last pre = 93 \<and> at_boundary U s pos)"
      using C by blast
    show False
    proof (cases "find_from U icp P s pos")
      case None
      have t: "?t = drop pos s" by (rule sub_from_None[OF None])
      define a0 where "a0 = a - length pre"
      define b0 where "b0 = b - length pre"
      have ab0: "a0 < b0" "b0 \<le> length (drop pos s)" "a = length pre + a0" "b = length pre + b0"
        using ab bx less.prems(2) by (simp_all add: a0_def b0_def t)
      then have ps: "pos < length s" by simp
      have mem': "length pre + b0 \<in> set (ends U ic Q (pre @ drop pos s @ []) (length pre + a0))"
        using mem ab0 by (simp add: t)
      have L: "has_wb Q \<longrightarrow> a0 = 0 \<longrightarrow> word_before U pre = word_before U (take pos s)"
      proof (intro impI)
        assume hw: "has_wb Q" and z: "a0 = 0"
        with wb have "starts_wb Q" by simp
        from ends_starts_wb[OF this mem] z ab0 have "at_boundary U (pre @ ?t) (length pre)"
          by simp
        from ctx_left[OF C'[OF hw] this] t ps show "word_before U pre = word_before U (take pos s)"
          by simp
      qed
      have R: "has_wb Q \<longrightarrow> b0 = length (drop pos s) \<longrightarrow> word_after U [] = word_after U []"
        by simp
      from span_in_segment[OF ab0(1,2) mem' L R]
      have "length (take pos s) + b0 \<in> set (ends U ic Q (take pos s @ drop pos s @ []) (length (take pos s) + a0))" .
      with ps have ms: "pos + b0 \<in> set (ends U ic Q s (pos + a0))"
        by (simp add: min_def)
      have le: "pos + a0 \<le> length s" using ab0 by simp
      from find_from_None[OF None _ le] have "ends U icp P s (pos + a0) = []" by simp
      from gap[OF ms le this] show False .
    next
      case (Some ij)
      obtain i j where ij: "ij = (i, j)" by (cases ij)
      with Some have fs: "find_from U icp P s pos = Some (i, j)" by simp
      from find_from_Some[OF fs] have pi: "pos \<le> i" "i \<le> length s"
        and jm: "j \<in> set (ends U icp P s i)"
        and nom: "\<And>k. pos \<le> k \<Longrightarrow> k < i \<Longrightarrow> ends U icp P s k = []"
        by auto
      from ends_nonnull[OF nP jm] have ij': "i < j" .
      from ends_le[OF jm pi(2)] have js: "j \<le> length s" .
      define seg where "seg = take (i - pos) (drop pos s)"
      define t2 where "t2 = sub_from U icp P repl s j"
      have t: "?t = seg @ repl @ t2"
        unfolding seg_def t2_def by (rule sub_from_Some[OF fs ij'])
      have lseg: "length seg = i - pos" using pi by (simp add: seg_def)
      have s_split: "take pos s @ seg @ drop i s = s"
        unfolding seg_def by (rule seg_split[OF pi])
      have s_take: "take i s = take pos s @ seg"
        unfolding seg_def by (rule seg_take[OF pi])
      have x: "?x = pre @ seg @ repl @ t2" by (simp add: t)
      have lrepl: "length repl = length mid + 2" by (simp add: rep)
      have x91: "?x ! (length pre + length seg) = 91"
      proof -
        have "(pre @ seg @ repl @ t2) ! (length pre + length seg) = 91"
          unfolding rep using nth_append_length[of "pre @ seg" 91 "mid @ [93] @ t2"] by simp
        then show ?thesis by (simp only: x)
      qed
      have x93: "?x ! (length pre + length seg + Suc (length mid)) = 93"
      proof -
        have "(pre @ seg @ repl @ t2) ! (length pre + length seg + Suc (length mid)) = 93"
          unfolding rep using nth_append_length[of "pre @ seg @ 91 # mid" 93 t2] by (simp add: add.assoc)
        then show ?thesis by (simp only: x)
      qed
      consider (later) "length pre + length seg + length repl \<le> a"
        | (inseg) "a < length pre + length seg"
        | (inrepl) "length pre + length seg \<le> a" "a < length pre + length seg + length repl"
        by linarith
      then show False
      proof cases
        case later
        let ?pre' = "pre @ seg @ repl"
        have m: "Suc (length s) - j < Suc (length s) - pos"
          using pi ij' js by simp
        have Cn: "(?pre' = [] \<and> j = 0) \<or> (?pre' \<noteq> [] \<and> last ?pre' = 93 \<and> (has_wb Q \<longrightarrow> at_boundary U s j))"
        proof -
          have "last ?pre' = 93" by (simp add: rep)
          moreover have "has_wb Q \<longrightarrow> at_boundary U s j"
            using wb ends_ends_wb[OF _ jm] by blast
          moreover have "?pre' \<noteq> []" by (simp add: rep)
          ultimately show ?thesis by blast
        qed
        have xe: "?pre' @ sub_from U icp P repl s j = ?x"
          by (simp add: x t2_def)
        have "b \<notin> set (ends U ic Q (?pre' @ sub_from U icp P repl s j) a)"
        proof (rule less.hyps[OF m Cn])
          show "length ?pre' \<le> a" using later by simp
          show "a \<le> length (?pre' @ sub_from U icp P repl s j)"
            unfolding xe by (rule less.prems(3))
        qed
        with mem xe show False by simp
      next
        case inseg
        have bseg: "b \<le> length pre + length seg"
        proof (rule ccontr)
          assume "\<not> b \<le> length pre + length seg"
          with inseg cons[of "length pre + length seg"]
          have "consumes U ic Q (?x ! (length pre + length seg))" by simp
          moreover note x91
          ultimately show False using c91 by simp
        qed
        define a0 where "a0 = a - length pre"
        define b0 where "b0 = b - length pre"
        have ab0: "a0 < b0" "b0 \<le> length seg" "a = length pre + a0" "b = length pre + b0"
          using ab bseg less.prems(2) by (simp_all add: a0_def b0_def)
        then have segne: "seg \<noteq> []" by auto
        then have "0 < length seg" by simp
        with lseg pi have ps: "pos < length s" "pos < i" by simp_all
        have mem': "length pre + b0 \<in> set (ends U ic Q (pre @ seg @ (repl @ t2)) (length pre + a0))"
          using mem ab0 by (simp add: x)
        have hdseg: "word_after U (seg @ repl @ t2) = word_after U (drop pos s)"
        proof -
          have "hd seg = hd (drop pos s)"
            using segne ps by (simp add: seg_def hd_conv_nth)
          moreover have "drop pos s \<noteq> []" using ps by simp
          ultimately show ?thesis using segne by (simp add: word_after_def)
        qed
        have L: "has_wb Q \<longrightarrow> a0 = 0 \<longrightarrow> word_before U pre = word_before U (take pos s)"
        proof (intro impI)
          assume hw: "has_wb Q" and z: "a0 = 0"
          with wb have "starts_wb Q" by simp
          from ends_starts_wb[OF this mem] z ab0 have "at_boundary U (pre @ ?t) (length pre)"
            by simp
          from ctx_left[OF C'[OF hw] this] hdseg t ps show "word_before U pre = word_before U (take pos s)"
            by simp
        qed
        have R: "has_wb Q \<longrightarrow> b0 = length seg \<longrightarrow> word_after U (repl @ t2) = word_after U (drop i s)"
        proof (intro impI)
          assume hw: "has_wb Q" and z: "b0 = length seg"
          with wb have eq: "ends_wb Q" and sp: "starts_wb P" by simp_all
          have bb: "b = length (pre @ seg)" using z ab0 by simp
          from ends_ends_wb[OF eq mem]
          have "at_boundary U (pre @ seg @ repl @ t2) (length (pre @ seg))"
            unfolding x bb .
          then have "at_boundary U ((pre @ seg) @ 91 # (mid @ [93] @ t2)) (length (pre @ seg))"
            by (simp add: rep)
          moreover have "at_boundary U s i" by (rule ends_starts_wb[OF sp jm])
          moreover have "word_before U (pre @ seg) = word_before U (take i s)"
            using segne by (simp add: s_take word_before_def)
          ultimately have "word_after U (91 # (mid @ [93] @ t2)) = word_after U (drop i s)"
            using pi(2) by (rule ctx_right)
          then show "word_after U (repl @ t2) = word_after U (drop i s)"
            by (simp add: rep)
        qed
        from span_in_segment[OF ab0(1,2) mem' L R]
        have "length (take pos s) + b0 \<in> set (ends U ic Q (take pos s @ seg @ drop i s) (length (take pos s) + a0))" .
        with ps have ms: "pos + b0 \<in> set (ends U ic Q s (pos + a0))"
          by (simp add: s_split min_def)
        have lt: "pos + a0 < i" using ab0 lseg by simp
        then have le: "pos + a0 \<le> length s" using pi by simp
        from nom[OF _ lt] have "ends U icp P s (pos + a0) = []" by simp
        from gap[OF ms le this] show False .
      next
        case inrepl
        define a1 where "a1 = a - (length pre + length seg)"
        define b1 where "b1 = b - (length pre + length seg)"
        have ab1: "a1 < b1" "a1 < length repl" "a = length (pre @ seg) + a1" "b = length (pre @ seg) + b1"
          using ab inrepl by (simp_all add: a1_def b1_def)
        have a1pos: "0 < a1"
        proof (rule ccontr)
          assume "\<not> 0 < a1"
          with ab1 have "a = length pre + length seg" by simp
          with cons[of a] ab have "consumes U ic Q (?x ! (length pre + length seg))" by simp
          moreover note x91
          ultimately show False using c91 by simp
        qed
        have b1lt: "b1 < length repl"
        proof (rule ccontr)
          assume n: "\<not> b1 < length repl"
          let ?k = "length pre + length seg + Suc (length mid)"
          have "a \<le> ?k" "?k < b" using n ab1 inrepl lrepl by simp_all
          from cons[OF this] have "consumes U ic Q (?x ! ?k)" .
          moreover note x93
          ultimately show False using c93 by simp
        qed
        have mem': "length (pre @ seg) + b1 \<in> set (ends U ic Q ((pre @ seg) @ repl @ t2) (length (pre @ seg) + a1))"
          using mem ab1 by (simp add: x)
        have L: "has_wb Q \<longrightarrow> a1 = 0 \<longrightarrow> word_before U (pre @ seg) = word_before U []"
          using a1pos by simp
        have R: "has_wb Q \<longrightarrow> b1 = length repl \<longrightarrow> word_after U t2 = word_after U []"
          using b1lt by simp
        from span_in_segment[OF ab1(1) _ mem' L R] b1lt
        have "b1 \<in> set (ends U ic Q repl a1)" by simp
        with ab1(2) inR show False by (auto simp: re_search_iff)
      qed
    qed
  qed
qed

lemma re_sub_clean:
  assumes "nonnull P" "nonnull Q" "repl = 91 # mid @ [93]"
    "\<not> consumes U ic Q 91" "\<not> consumes U ic Q 93" "\<not> re_search U ic Q repl"
    "has_wb Q \<longrightarrow> starts_wb Q \<and> ends_wb Q \<and> starts_wb P \<and> ends_wb P"
    "(Q = P \<and> ic = icp) \<or> \<not> re_search U ic Q s"
  shows "\<not> re_search U ic Q (re_sub U icp P repl s)"
proof
  assume "re_search U ic Q (re_sub U icp P repl s)"
  then obtain a b where ab: "a \<le> length (re_sub U icp P repl s)"
      "b \<in> set (ends U ic Q (re_sub U icp P repl s) a)"
    by (auto simp: re_search_iff)
  from sub_from_clean[OF assms, of "[]" 0 a b] ab show False
    by (simp add: re_sub_def)
qed

section \<open>The four rules: what remains after a substitution\<close>

lemma of_char_codes:
  "of_char CHR ''a'' = (97 :: nat)" "of_char CHR ''z'' = (122 :: nat)"
  "of_char CHR ''A'' = (65 :: nat)" "of_char CHR ''Z'' = (90 :: nat)"
  "of_char CHR ''0'' = (48 :: nat)" "of_char CHR ''9'' = (57 :: nat)"
  by simp_all

lemma rules_nonnull: "nonnull ip_rx" "nonnull email_rx" "nonnull host_rx" "nonnull id_rx"
  by (simp_all add: ip_rx_def email_rx_def host_rx_def host_label_def id_rx_def ascii_def)

lemma rules_wb:
  "starts_wb ip_rx \<and> ends_wb ip_rx" "starts_wb host_rx \<and> ends_wb host_rx"
  "starts_wb id_rx \<and> ends_wb id_rx" "\<not> has_wb email_rx"
  by (simp_all add: ip_rx_def email_rx_def host_rx_def host_label_def id_rx_def)

lemma rules_no_brackets:
  "\<not> consumes U True ip_rx 91" "\<not> consumes U True ip_rx 93"
  "\<not> consumes U True email_rx 91" "\<not> consumes U True email_rx 93"
  "\<not> consumes U True host_rx 91" "\<not> consumes U True host_rx 93"
  "\<not> consumes U True id_rx 91" "\<not> consumes U True id_rx 93"
  by (simp_all add: ip_rx_def email_rx_def host_rx_def host_label_def id_rx_def ascii_def
      ch_def rng_def ascii_lower_def ascii_upper_def is_space_def ascii_space_def)

lemma placeholders_shape:
  "ascii ''[redacted-ip]'' = 91 # ascii ''redacted-ip'' @ [93]"
  "ascii ''[redacted-email]'' = 91 # ascii ''redacted-email'' @ [93]"
  "ascii ''[redacted-host]'' = 91 # ascii ''redacted-host'' @ [93]"
  "ascii ''[redacted-id]'' = 91 # ascii ''redacted-id'' @ [93]"
  by (simp_all add: ascii_def)

lemma placeholders_clean:
  "\<not> re_search U True ip_rx (ascii ''[redacted-ip]'')"
  "\<not> re_search U True email_rx (ascii ''[redacted-email]'')"
  "\<not> re_search U True email_rx (ascii ''[redacted-host]'')"
  "\<not> re_search U True email_rx (ascii ''[redacted-id]'')"
  "\<not> re_search U True host_rx (ascii ''[redacted-host]'')"
  "\<not> re_search U True host_rx (ascii ''[redacted-id]'')"
  "\<not> re_search U True id_rx (ascii ''[redacted-id]'')"
  by code_simp+

lemma re_sub_no_match:
  assumes "\<not> re_search U ic P s"
  shows "re_sub U ic P repl s = s"
proof -
  from assms have "find_from U ic P s 0 = None"
    by (simp only: re_search_def not_not)
  then show ?thesis by (simp add: re_sub_def sub_from_None)
qed

lemma apply_rules_step:
  "apply_rules U ((p, r, l) # rs) t ns =
     apply_rules U rs (re_sub U True p r t)
       (ns @ (if re_search U True p t then [\<lparr>token = l, action = ascii ''redacted''\<rparr>] else []))"
  by (simp add: re_sub_no_match)

text \<open>The text after the first rule, after the second, the third and the fourth.\<close>

definition after_ip :: "unicode_db \<Rightarrow> pystr \<Rightarrow> pystr" where
  "after_ip U txt = re_sub U True ip_rx (ascii ''[redacted-ip]'') txt"

definition after_email :: "unicode_db \<Rightarrow> pystr \<Rightarrow> pystr" where
  "after_email U txt = re_sub U True email_rx (ascii ''[redacted-email]'') (after_ip U txt)"

definition after_host :: "unicode_db \<Rightarrow> pystr \<Rightarrow> pystr" where
  "after_host U txt = re_sub U True host_rx (ascii ''[redacted-host]'') (after_email U txt)"

definition after_id :: "unicode_db \<Rightarrow> pystr \<Rightarrow> pystr" where
  "after_id U txt = re_sub U True id_rx (ascii ''[redacted-id]'') (after_host U txt)"

definition fired :: "bool \<Rightarrow> string \<Rightarrow> redaction_note list" where
  "fired matched label = (if matched then [\<lparr>token = ascii label, action = ascii ''redacted''\<rparr>] else [])"

lemma apply_rules_rules:
  "apply_rules U rules txt [] =
     (after_id U txt,
      fired (re_search U True ip_rx txt) ''ip''
      @ fired (re_search U True email_rx (after_ip U txt)) ''email''
      @ fired (re_search U True host_rx (after_email U txt)) ''hostname''
      @ fired (re_search U True id_rx (after_host U txt)) ''internal-id'')"
  unfolding rules_def apply_rules_step after_id_def after_host_def after_email_def after_ip_def fired_def
  by simp

lemma after_ip_clean: "\<not> re_search U True ip_rx (after_ip U txt)"
  unfolding after_ip_def
  by (rule re_sub_clean[OF rules_nonnull(1) rules_nonnull(1) placeholders_shape(1)
        rules_no_brackets(1,2) placeholders_clean(1)]) (simp_all add: rules_wb)

lemma after_email_clean: "\<not> re_search U True email_rx (after_email U txt)"
  unfolding after_email_def
  by (rule re_sub_clean[OF rules_nonnull(2) rules_nonnull(2) placeholders_shape(2)
        rules_no_brackets(3,4) placeholders_clean(2)]) (simp_all add: rules_wb)

lemma after_host_clean: "\<not> re_search U True host_rx (after_host U txt)"
  unfolding after_host_def
  by (rule re_sub_clean[OF rules_nonnull(3) rules_nonnull(3) placeholders_shape(3)
        rules_no_brackets(5,6) placeholders_clean(5)]) (simp_all add: rules_wb)

lemma after_id_clean: "\<not> re_search U True id_rx (after_id U txt)"
  unfolding after_id_def
  by (rule re_sub_clean[OF rules_nonnull(4) rules_nonnull(4) placeholders_shape(4)
        rules_no_brackets(7,8) placeholders_clean(7)]) (simp_all add: rules_wb)

lemma after_host_no_email: "\<not> re_search U True email_rx (after_host U txt)"
  unfolding after_host_def
  by (rule re_sub_clean[OF rules_nonnull(3) rules_nonnull(2) placeholders_shape(3)
        rules_no_brackets(3,4) placeholders_clean(3)]) (simp_all add: rules_wb after_email_clean)

lemma after_id_no_email: "\<not> re_search U True email_rx (after_id U txt)"
  unfolding after_id_def
  by (rule re_sub_clean[OF rules_nonnull(4) rules_nonnull(2) placeholders_shape(4)
        rules_no_brackets(3,4) placeholders_clean(4)]) (simp_all add: rules_wb after_host_no_email)

lemma after_id_no_host: "\<not> re_search U True host_rx (after_id U txt)"
  unfolding after_id_def
  by (rule re_sub_clean[OF rules_nonnull(4) rules_nonnull(3) placeholders_shape(4)
        rules_no_brackets(5,6) placeholders_clean(6)]) (simp_all add: rules_wb after_host_clean)

definition trace_note :: redaction_note where
  "trace_note = \<lparr>token = ascii ''stack-trace-line'', action = ascii ''removed''\<rparr>"

lemma filter_lines_eq:
  "filter_lines U ls acc ns =
     (acc @ filter (\<lambda>l. \<not> re_search U False trace_rx l) ls,
      ns @ replicate (length (filter (re_search U False trace_rx) ls)) trace_note)"
proof (induction ls arbitrary: acc ns)
  case Nil
  then show ?case by simp
next
  case (Cons l ls)
  show ?case
    by (simp add: Cons.IH trace_note_def replicate_app_Cons_same)
qed

lemma sanitize_text_eq:
  "sanitize_text U txt =
     \<lparr>text_of = join [10] (filter (\<lambda>l. \<not> re_search U False trace_rx l) (splitlines (after_id U txt))),
      notes_of = snd (apply_rules U rules txt [])
        @ replicate (length (filter (re_search U False trace_rx) (splitlines (after_id U txt)))) trace_note\<rparr>"
  by (simp add: sanitize_text_def apply_rules_rules filter_lines_eq)

lemma sanitize_user_at_example:
  "sanitize_text U (ascii ''user@example.com'')
     = \<lparr>text_of = ascii ''[redacted-email]'',
        notes_of = [\<lparr>token = ascii ''email'', action = ascii ''redacted''\<rparr>]\<rparr>"
  by code_simp

text \<open>
  C2. The redactor runs the rules in the order ip, email, hostname, internal-id, each on the
  text the previous rules left (\<open>after_ip\<close>, \<open>after_email\<close>, \<open>after_host\<close>, \<open>after_id\<close>).
  Each rule is matched with \<open>re.IGNORECASE\<close>; the rule substitutes its placeholder for the
  matches, after which its pattern matches nowhere in the text, and the rule contributes one
  note if its pattern matched and none otherwise (\<open>fired\<close>), whatever the number of matches.
  These notes, in rule order, are the first notes of \<open>sanitize_text\<close>. The input
  \<open>user@example.com\<close> gives the text \<open>[redacted-email]\<close> and exactly one note, \<open>email\<close>.
\<close>

theorem rules_in_order:
  "apply_rules U rules txt [] =
     (after_id U txt,
      fired (re_search U True ip_rx txt) ''ip''
      @ fired (re_search U True email_rx (after_ip U txt)) ''email''
      @ fired (re_search U True host_rx (after_email U txt)) ''hostname''
      @ fired (re_search U True id_rx (after_host U txt)) ''internal-id'')
   \<and> after_ip U txt = re_sub U True ip_rx (ascii ''[redacted-ip]'') txt
   \<and> after_email U txt = re_sub U True email_rx (ascii ''[redacted-email]'') (after_ip U txt)
   \<and> after_host U txt = re_sub U True host_rx (ascii ''[redacted-host]'') (after_email U txt)
   \<and> after_id U txt = re_sub U True id_rx (ascii ''[redacted-id]'') (after_host U txt)
   \<and> \<not> re_search U True ip_rx (after_ip U txt)
   \<and> \<not> re_search U True email_rx (after_email U txt)
   \<and> \<not> re_search U True host_rx (after_host U txt)
   \<and> \<not> re_search U True id_rx (after_id U txt)
   \<and> prefix (snd (apply_rules U rules txt [])) (notes_of (sanitize_text U txt))
   \<and> sanitize_text U (ascii ''user@example.com'')
       = \<lparr>text_of = ascii ''[redacted-email]'',
          notes_of = [\<lparr>token = ascii ''email'', action = ascii ''redacted''\<rparr>]\<rparr>"
proof -
  have "prefix (snd (apply_rules U rules txt [])) (notes_of (sanitize_text U txt))"
    unfolding sanitize_text_eq by simp
  then show ?thesis
    using apply_rules_rules[of U "txt"] after_ip_clean[of U "txt"] after_email_clean[of U "txt"]
      after_host_clean[of U "txt"] after_id_clean[of U "txt"] sanitize_user_at_example[of U]
    by (simp add: after_ip_def after_email_def after_host_def after_id_def)
qed

theorem rules_in_order_witness:
  "snd (apply_rules plain_db rules (ascii ''Bob@EXAMPLE.COM, a@b.io 10.0.0.1'') [])
     = [\<lparr>token = ascii ''ip'', action = ascii ''redacted''\<rparr>,
        \<lparr>token = ascii ''email'', action = ascii ''redacted''\<rparr>]
   \<and> after_id plain_db (ascii ''Bob@EXAMPLE.COM, a@b.io 10.0.0.1'')
     = ascii ''[redacted-email], [redacted-email] [redacted-ip]''
   \<and> \<not> re_search plain_db True email_rx
        (after_email plain_db (ascii ''Bob@EXAMPLE.COM, a@b.io 10.0.0.1''))"
proof -
  note t = rules_in_order[of plain_db "ascii ''Bob@EXAMPLE.COM, a@b.io 10.0.0.1''"]
  have e: "apply_rules plain_db rules (ascii ''Bob@EXAMPLE.COM, a@b.io 10.0.0.1'') []
     = (ascii ''[redacted-email], [redacted-email] [redacted-ip]'',
        [\<lparr>token = ascii ''ip'', action = ascii ''redacted''\<rparr>,
         \<lparr>token = ascii ''email'', action = ascii ''redacted''\<rparr>])"
    by code_simp
  from t have 1: "after_id plain_db (ascii ''Bob@EXAMPLE.COM, a@b.io 10.0.0.1'')
      = fst (apply_rules plain_db rules (ascii ''Bob@EXAMPLE.COM, a@b.io 10.0.0.1'') [])"
    by simp
  from t have 2: "\<not> re_search plain_db True email_rx
        (after_email plain_db (ascii ''Bob@EXAMPLE.COM, a@b.io 10.0.0.1''))"
    by blast
  show ?thesis using 1 2 e by simp
qed

section \<open>Lines\<close>

lemma linebreak_not_word: "is_linebreak c \<Longrightarrow> \<not> is_word U c"
  by (auto simp: is_linebreak_def is_word_def ascii_alnum_def)

lemma splitlines_from_segment:
  "l \<in> set (splitlines_from cur s) \<Longrightarrow> \<forall>c\<in>set cur. \<not> is_linebreak c \<Longrightarrow>
   \<exists>pre post. cur @ s = pre @ l @ post
      \<and> (pre = [] \<or> is_linebreak (last pre))
      \<and> (post = [] \<or> is_linebreak (hd post))"
proof (induction cur s rule: splitlines_from.induct)
  case (1 cur)
  then have "l = cur" by (auto split: if_splits)
  then have "cur @ [] = [] @ l @ []" by simp
  then show ?case by blast
next
  case (2 cur c cs)
  have nl: "\<forall>c\<in>set []. \<not> is_linebreak (c :: nat)" by simp
  have lb13: "is_linebreak 13" and lb10: "is_linebreak 10" by (simp_all add: is_linebreak_def)
  have later: "\<exists>pre post. cur @ c # cs = pre @ l @ post
      \<and> (pre = [] \<or> is_linebreak (last pre)) \<and> (post = [] \<or> is_linebreak (hd post))"
    if brk: "sep \<noteq> []" "is_linebreak (last sep)" "c # cs = sep @ rest"
      and ex: "\<exists>pre post. [] @ rest = pre @ l @ post
      \<and> (pre = [] \<or> is_linebreak (last pre)) \<and> (post = [] \<or> is_linebreak (hd post))"
    for sep rest
  proof -
    from ex obtain pre post where p: "rest = pre @ l @ post"
      "pre = [] \<or> is_linebreak (last pre)" "post = [] \<or> is_linebreak (hd post)"
      by auto
    have "cur @ c # cs = (cur @ sep @ pre) @ l @ post"
      using brk(3) p(1) by simp
    moreover have "is_linebreak (last (cur @ sep @ pre))"
      using brk(1,2) p(2) by (cases "pre = []") simp_all
    ultimately show ?thesis using p(3) by blast
  qed
  have first: "\<exists>pre post. cur @ c # cs = pre @ l @ post
      \<and> (pre = [] \<or> is_linebreak (last pre)) \<and> (post = [] \<or> is_linebreak (hd post))"
    if "l = cur" "is_linebreak c"
  proof -
    have "cur @ c # cs = [] @ l @ (c # cs)" using that by simp
    then show ?thesis using that(2) by (metis list.sel(1))
  qed
  show ?case
  proof (cases "c = 13")
    case c13: True
    show ?thesis
    proof (cases cs)
      case Nil
      with "2.prems" c13 consider "l = cur" | "l \<in> set (splitlines_from [] cs)"
        by auto
      then show ?thesis
      proof cases
        case 1
        with first c13 lb13 show ?thesis by simp
      next
        case 2
        from "2.IH"(1)[OF c13 Nil 2 nl] later[of "[c]" cs] c13 lb13 show ?thesis
          by simp
      qed
    next
      case (Cons d ds)
      show ?thesis
      proof (cases "d = 10")
        case d10: True
        with "2.prems" c13 Cons consider "l = cur" | "l \<in> set (splitlines_from [] ds)"
          by auto
        then show ?thesis
        proof cases
          case 1
          with first c13 lb13 show ?thesis by simp
        next
          case 2
          from "2.IH"(2)[OF c13 Cons d10 2 nl] later[of "[c, d]" ds] d10 Cons lb10 show ?thesis
            by simp
        qed
      next
        case dn: False
        with "2.prems" c13 Cons consider "l = cur" | "l \<in> set (splitlines_from [] cs)"
          by auto
        then show ?thesis
        proof cases
          case 1
          with first c13 lb13 show ?thesis by simp
        next
          case 2
          from "2.IH"(3)[OF c13 Cons dn 2 nl] later[of "[c]" cs] c13 lb13 show ?thesis
            by simp
        qed
      qed
    qed
  next
    case cn: False
    show ?thesis
    proof (cases "is_linebreak c")
      case lb: True
      with "2.prems" cn consider "l = cur" | "l \<in> set (splitlines_from [] cs)"
        by auto
      then show ?thesis
      proof cases
        case 1
        with first lb show ?thesis by simp
      next
        case 2
        from "2.IH"(4)[OF cn lb 2 nl] later[of "[c]" cs] lb show ?thesis
          by simp
      qed
    next
      case nlb: False
      with "2.prems" cn have m: "l \<in> set (splitlines_from (cur @ [c]) cs)"
        and n: "\<forall>c\<in>set (cur @ [c]). \<not> is_linebreak c"
        by auto
      from "2.IH"(5)[OF cn nlb m n] show ?thesis by simp
    qed
  qed
qed

lemma splitlines_segment:
  assumes "l \<in> set (splitlines s)"
  shows "\<exists>pre post. s = pre @ l @ post
      \<and> (pre = [] \<or> is_linebreak (last pre))
      \<and> (post = [] \<or> is_linebreak (hd post))"
  using splitlines_from_segment[of l "[]" s] assms by (simp add: splitlines_def)

lemma join_span:
  "a < b \<Longrightarrow> b \<le> length (join [10] ls) \<Longrightarrow> (\<forall>k. a \<le> k \<and> k < b \<longrightarrow> join [10] ls ! k \<noteq> 10) \<Longrightarrow>
   \<exists>pre l post. join [10] ls = pre @ l @ post \<and> l \<in> set ls
      \<and> (pre = [] \<or> last pre = 10) \<and> (post = [] \<or> hd post = 10)
      \<and> length pre \<le> a \<and> b \<le> length pre + length l"
proof (induction "[10 :: nat]" ls arbitrary: a b rule: join.induct)
  case 1
  then show ?case by simp
next
  case (2 x)
  have "join [10] [x] = [] @ x @ []" by simp
  moreover have "x \<in> set [x]" by simp
  ultimately show ?case using "2.prems" by (metis append_Nil2 le0 list.size(3) add_0 join.simps(2))
next
  case (3 x y ys)
  let ?r = "join [10] (y # ys)"
  have j: "join [10] (x # y # ys) = x @ [10] @ ?r" by simp
  have at: "join [10] (x # y # ys) ! length x = 10"
    unfolding j by (simp add: nth_append)
  show ?case
  proof (cases "a < length x")
    case True
    have "b \<le> length x"
    proof (rule ccontr)
      assume "\<not> b \<le> length x"
      with True have "a \<le> length x \<and> length x < b" by simp
      with "3.prems"(3) at show False by blast
    qed
    moreover have "join [10] (x # y # ys) = [] @ x @ ([10] @ ?r)" by simp
    moreover have "x \<in> set (x # y # ys)" by simp
    moreover have "hd ([10] @ ?r) = 10" by simp
    ultimately show ?thesis
      by (metis add_0 le0 list.size(3))
  next
    case False
    have "a \<noteq> length x"
    proof
      assume "a = length x"
      with "3.prems"(1) have "a \<le> length x \<and> length x < b" by simp
      with "3.prems"(3) at show False by blast
    qed
    with False have al: "length x < a" by simp
    define a' where "a' = a - Suc (length x)"
    define b' where "b' = b - Suc (length x)"
    have ab: "a = Suc (length x) + a'" "b = Suc (length x) + b'" "a' < b'" "b' \<le> length ?r"
      using al "3.prems"(1,2) by (simp_all add: a'_def b'_def)
    have no: "\<forall>k. a' \<le> k \<and> k < b' \<longrightarrow> ?r ! k \<noteq> 10"
    proof (intro allI impI)
      fix k assume k: "a' \<le> k \<and> k < b'"
      then have "join [10] (x # y # ys) ! (Suc (length x) + k) \<noteq> 10"
        using "3.prems"(3) ab by simp
      moreover have "join [10] (x # y # ys) ! (Suc (length x) + k) = ?r ! k"
        unfolding j using nth_append_length_plus[of "x @ [10]" ?r k] by simp
      ultimately show "?r ! k \<noteq> 10" by simp
    qed
    from "3.hyps"[OF ab(3,4) no] obtain pre l post where p: "?r = pre @ l @ post" "l \<in> set (y # ys)"
      "pre = [] \<or> last pre = 10" "post = [] \<or> hd post = 10"
      "length pre \<le> a'" "b' \<le> length pre + length l"
      by blast
    have "join [10] (x # y # ys) = (x @ [10] @ pre) @ l @ post"
      unfolding j p(1) by simp
    moreover have "last (x @ [10] @ pre) = 10" using p(3) by auto
    moreover have "l \<in> set (x # y # ys)" using p(2) by simp
    moreover have "length (x @ [10] @ pre) \<le> a" "b \<le> length (x @ [10] @ pre) + length l"
      using p(5,6) ab by simp_all
    ultimately show ?thesis using p(4) by blast
  qed
qed

lemma rules_no_newline:
  "\<not> consumes U True email_rx 10" "\<not> consumes U True host_rx 10"
  by (simp_all add: email_rx_def host_rx_def host_label_def ascii_def
      ch_def rng_def ascii_lower_def ascii_upper_def)

lemma word_before_break: "pre = [] \<or> is_linebreak (last pre) \<Longrightarrow> \<not> word_before U pre"
  by (auto simp: word_before_def linebreak_not_word)

lemma word_after_break: "post = [] \<or> is_linebreak (hd post) \<Longrightarrow> \<not> word_after U post"
  by (auto simp: word_after_def linebreak_not_word)

text \<open>
  Dropping lines and joining the rest with line feeds creates no match of a pattern that
  cannot span a line feed.
\<close>

lemma lines_clean:
  assumes nm: "\<not> re_search U ic Q s" and nq: "nonnull Q" and c10: "\<not> consumes U ic Q 10"
    and sub: "set fl \<subseteq> set (splitlines s)"
  shows "\<not> re_search U ic Q (join [10] fl)"
proof
  let ?x = "join [10] fl"
  assume "re_search U ic Q ?x"
  then obtain a b where ax: "a \<le> length ?x" and mem: "b \<in> set (ends U ic Q ?x a)"
    by (auto simp: re_search_iff)
  from ends_nonnull[OF nq mem] have ab: "a < b" .
  from ends_le[OF mem ax] have bx: "b \<le> length ?x" .
  have no10: "\<forall>k. a \<le> k \<and> k < b \<longrightarrow> ?x ! k \<noteq> 10"
    using ends_consumes[OF mem] c10 by metis
  from join_span[OF ab bx no10] obtain pre l post where p: "?x = pre @ l @ post" "l \<in> set fl"
      "pre = [] \<or> last pre = 10" "post = [] \<or> hd post = 10"
      "length pre \<le> a" "b \<le> length pre + length l"
    by blast
  have lb10: "is_linebreak 10" by (simp add: is_linebreak_def)
  from p(3,4) lb10 have ctx: "\<not> word_before U pre" "\<not> word_after U post"
    by (auto intro!: word_before_break word_after_break)
  from p(2) sub have "l \<in> set (splitlines s)" by blast
  from splitlines_segment[OF this] obtain pre2 post2 where q: "s = pre2 @ l @ post2"
      "pre2 = [] \<or> is_linebreak (last pre2)" "post2 = [] \<or> is_linebreak (hd post2)"
    by blast
  from q(2,3) have ctx2: "\<not> word_before U pre2" "\<not> word_after U post2"
    by (auto intro!: word_before_break word_after_break)
  define a0 where "a0 = a - length pre"
  define b0 where "b0 = b - length pre"
  have ab0: "a = length pre + a0" "b = length pre + b0" "a0 \<le> b0" "b0 \<le> length l"
    using p(5,6) ab by (simp_all add: a0_def b0_def)
  have L: "has_wb Q \<longrightarrow> a0 = 0 \<longrightarrow> word_before U pre = word_before U pre2"
    using ctx ctx2 by simp
  have R: "has_wb Q \<longrightarrow> b0 = length l \<longrightarrow> word_after U post = word_after U post2"
    using ctx ctx2 by simp
  have "length pre + b0 \<in> set (ends U ic Q (pre @ l @ post) (length pre + a0))"
    using mem ab0 p(1) by simp
  from ends_local_imp[OF L R _ ab0(3) _ ab0(4) this]
  have "length pre2 + b0 \<in> set (ends U ic Q s (length pre2 + a0))"
    by (simp add: q(1))
  moreover have "length pre2 + a0 \<le> length s"
    using ab0 q(1) by simp
  ultimately have "re_search U ic Q s" by (auto simp: re_search_iff)
  with nm show False by simp
qed

lemma sanitize_text_text:
  "text_of (sanitize_text U txt)
     = join [10] (filter (\<lambda>l. \<not> re_search U False trace_rx l) (splitlines (after_id U txt)))"
  by (simp add: sanitize_text_eq)

lemma final_no_email: "\<not> re_search U True email_rx (text_of (sanitize_text U txt))"
  unfolding sanitize_text_text
  by (rule lines_clean[OF after_id_no_email rules_nonnull(2) rules_no_newline(1)]) auto

lemma final_no_host: "\<not> re_search U True host_rx (text_of (sanitize_text U txt))"
  unfolding sanitize_text_text
  by (rule lines_clean[OF after_id_no_host rules_nonnull(3) rules_no_newline(2)]) auto

section \<open>Decimal digits: a dotted quad is a host name\<close>

text \<open>
  The character set of the hostname pattern holds the ASCII digits, while \<^verbatim>\<open>\d\<close> accepts
  every decimal digit of Unicode. \<open>ascii_digits U s\<close>: the only decimal digits in \<open>s\<close> are
  the ASCII ones, that is, no code point of \<open>s\<close> from 128 on is a decimal digit. Every
  ASCII string is of this kind, and so is every string whose other characters are letters,
  punctuation or symbols.
\<close>

definition ascii_digits :: "unicode_db \<Rightarrow> pystr \<Rightarrow> bool" where
  "ascii_digits U s = list_all (\<lambda>c. c < 128 \<or> \<not> uni_digit U c) s"

lemma ascii_digits_iff: "ascii_digits U s \<longleftrightarrow> (\<forall>c\<in>set s. c < 128 \<or> \<not> uni_digit U c)"
  by (simp add: ascii_digits_def list_all_iff)



lemma sub_from_set: "set (sub_from U ic P repl s pos) \<subseteq> set s \<union> set repl"
proof (induction U ic P repl s pos rule: sub_from.induct)
  case (1 U ic r repl s pos)
  show ?case
  proof (cases "find_from U ic r s pos")
    case None
    then show ?thesis
      by (subst sub_from.simps) (auto dest: in_set_dropD)
  next
    case (Some ij)
    obtain i j where ij: "ij = (i, j)" by (cases ij)
    with Some have fs: "find_from U ic r s pos = Some (i, j)" by simp
    have tk: "set (take (i - pos) (drop pos s)) \<subseteq> set s"
      by (meson in_set_dropD in_set_takeD subsetI)
    show ?thesis
    proof (cases "i < j")
      case True
      from "1.IH"(1)[OF fs refl True] tk True fs show ?thesis
        by (subst sub_from.simps) auto
    next
      case False
      show ?thesis
      proof (cases "i < length s")
        case True
        from "1.IH"(2)[OF fs refl False True] tk True False fs show ?thesis
          by (subst sub_from.simps) auto
      next
        case nl: False
        with tk False fs show ?thesis
          by (subst sub_from.simps) auto
      qed
    qed
  qed
qed

lemma re_sub_digits:
  assumes "ascii_digits U s" "ascii_digits U repl"
  shows "ascii_digits U (re_sub U ic P repl s)"
proof -
  have "c < 128 \<or> \<not> uni_digit U c" if "c \<in> set (re_sub U ic P repl s)" for c
  proof -
    from that sub_from_set[of U ic P repl s 0] have "c \<in> set s \<or> c \<in> set repl"
      by (auto simp: re_sub_def)
    with assms show ?thesis by (auto simp: ascii_digits_iff)
  qed
  then show ?thesis by (simp add: ascii_digits_iff)
qed

lemma placeholders_digits:
  "ascii_digits U (ascii ''[redacted-ip]'')" "ascii_digits U (ascii ''[redacted-email]'')"
  "ascii_digits U (ascii ''[redacted-host]'')" "ascii_digits U (ascii ''[redacted-id]'')"
  by (simp_all add: ascii_digits_def ascii_def)

lemma after_id_digits: "ascii_digits U txt \<Longrightarrow> ascii_digits U (after_id U txt)"
  by (simp add: after_id_def after_host_def after_email_def after_ip_def re_sub_digits placeholders_digits)

lemma join_set: "set (join sep ls) \<subseteq> set sep \<union> \<Union> (set ` set ls)"
  by (induction sep ls rule: join.induct) auto

lemma splitlines_set: "l \<in> set (splitlines s) \<Longrightarrow> set l \<subseteq> set s"
  using splitlines_segment[of l s] by auto

lemma final_digits:
  assumes "ascii_digits U txt"
  shows "ascii_digits U (text_of (sanitize_text U txt))"
proof -
  let ?ls = "filter (\<lambda>l. \<not> re_search U False trace_rx l) (splitlines (after_id U txt))"
  have "c < 128 \<or> \<not> uni_digit U c" if "c \<in> set (join [10] ?ls)" for c
  proof -
    from that join_set[of "[10]" ?ls] consider "c = 10" | l where "l \<in> set ?ls" "c \<in> set l"
      by auto
    then show ?thesis
    proof cases
      case 1
      then show ?thesis by simp
    next
      case 2
      then have "c \<in> set (after_id U txt)" using splitlines_set by fastforce
      with after_id_digits[OF assms] show ?thesis by (simp add: ascii_digits_iff)
    qed
  qed
  then show ?thesis by (simp add: sanitize_text_text ascii_digits_iff)
qed

lemma iter_mono:
  assumes "\<And>i m. m \<in> set (f i) \<Longrightarrow> m \<in> set (g i)"
  shows "iter f n k i j \<Longrightarrow> iter g n k i j"
proof (induction k arbitrary: i)
  case 0
  then show ?case by simp
next
  case (Suc k)
  then obtain m where "m \<in> set (f i)" "i < m" "m \<le> n" "iter f n k m j"
    by (auto simp: list_ex_iff)
  with Suc.IH[of m] assms[of m i] show ?case
    by (auto simp: list_ex_iff)
qed

lemma iter_SucI: "m \<in> set (f i) \<Longrightarrow> i < m \<Longrightarrow> m \<le> n \<Longrightarrow> iter f n k m j \<Longrightarrow> iter f n (Suc k) i j"
  by (auto simp: list_ex_iff)

definition digits_rx :: regex where
  "digits_rx = Rep 1 (Some 3) (Set [Digit])"

definition dot_rx :: regex where
  "dot_rx = Lit (ascii ''.'')"

lemma digits_label:
  assumes asc: "ascii_digits U s" and mem: "j \<in> set (ends U True digits_rx s i)"
  shows "j \<in> set (ends U True host_label s i)"
proof -
  have step: "m \<in> set (ends U True (Set [rng CHR ''a'' CHR ''z'', rng CHR ''A'' CHR ''Z'',
                  rng CHR ''0'' CHR ''9'', ch CHR ''-'']) s i')"
    if "m \<in> set (ends U True (Set [Digit]) s i')" for m i'
  proof -
    from that have i': "i' < length s" "item_match U True Digit (s ! i')" "m = Suc i'"
      by (auto split: if_splits)
    from asc i'(1) have "s ! i' < 128 \<or> \<not> uni_digit U (s ! i')"
      by (simp add: ascii_digits_iff)
    with i'(2) have "48 \<le> s ! i' \<and> s ! i' \<le> 57"
      by (cases "s ! i' < 128") simp_all
    then have "item_match U True (rng CHR ''0'' CHR ''9'') (s ! i')"
      by (simp add: rng_def)
    with i' show ?thesis by simp
  qed
  from mem obtain k where k: "1 \<le> k" "iter (ends U True (Set [Digit]) s) (length s) k i j"
    by (auto simp: digits_rx_def rep_ends_iff)
  have "iter (ends U True (Set [rng CHR ''a'' CHR ''z'', rng CHR ''A'' CHR ''Z'',
                  rng CHR ''0'' CHR ''9'', ch CHR ''-'']) s) (length s) k i j"
    using k(2) by (rule iter_mono[rotated]) (rule step)
  with k(1) have "\<exists>k. 1 \<le> k \<and> iter (ends U True (Set [rng CHR ''a'' CHR ''z'', rng CHR ''A'' CHR ''Z'',
                  rng CHR ''0'' CHR ''9'', ch CHR ''-'']) s) (length s) k i j"
    by blast
  then show ?thesis
    unfolding host_label_def ends.simps rep_ends_iff by simp
qed

lemma ip_rx_alt: "ip_rx = Seq WordB (Seq (Rep 3 (Some 3) (Seq digits_rx dot_rx)) (Seq digits_rx WordB))"
  by (simp add: ip_rx_def digits_rx_def dot_rx_def)

lemma host_rx_alt: "host_rx = Seq WordB (Seq host_label (Seq (Rep 1 None (Seq dot_rx host_label)) WordB))"
  by (simp add: host_rx_def dot_rx_def)

lemma dot_step:
  assumes "p \<in> set (ends U True dot_rx s q)"
  shows "q < p"
  using ends_nonnull[OF _ assms] by (simp add: dot_rx_def ascii_def)

text \<open>
  In a text whose decimal digits are ASCII, a match of the ip pattern is also a match of the
  hostname pattern, with the same start and end.
\<close>

lemma ip_is_host:
  assumes asc: "ascii_digits U s" and a: "a \<le> length s" and mem: "b \<in> set (ends U True ip_rx s a)"
  shows "b \<in> set (ends U True host_rx s a)"
proof -
  let ?n = "length s"
  let ?G = "ends U True (Seq digits_rx dot_rx) s"
  let ?H = "ends U True (Seq dot_rx host_label) s"
  from mem obtain k1 where wa: "at_boundary U s a"
    and g: "k1 \<in> set (ends U True (Rep 3 (Some 3) (Seq digits_rx dot_rx)) s a)"
    and d4: "b \<in> set (ends U True digits_rx s k1)" and wb: "at_boundary U s b"
    by (auto simp: ip_rx_alt split: if_splits)
  from g obtain k where "3 \<le> k" "k \<le> 3" "iter ?G ?n k a k1"
    by (auto simp: rep_ends_iff)
  then have "iter ?G ?n (Suc (Suc (Suc 0))) a k1"
    by (simp add: eval_nat_numeral le_antisym)
  then obtain p1 p2 where p1: "p1 \<in> set (?G a)" and p2: "p2 \<in> set (?G p1)" and p3: "k1 \<in> set (?G p2)"
    by (auto simp: list_ex_iff)
  from p1 obtain q1 where q1: "q1 \<in> set (ends U True digits_rx s a)" "p1 \<in> set (ends U True dot_rx s q1)"
    by auto
  from p2 obtain q2 where q2: "q2 \<in> set (ends U True digits_rx s p1)" "p2 \<in> set (ends U True dot_rx s q2)"
    by auto
  from p3 obtain q3 where q3: "q3 \<in> set (ends U True digits_rx s p2)" "k1 \<in> set (ends U True dot_rx s q3)"
    by auto
  from ends_le[OF mem a] have bn: "b \<le> ?n" .
  note ge = ends_ge[OF q1(1)] ends_ge[OF q2(1)] ends_ge[OF q3(1)] ends_ge[OF d4]
  note lt = dot_step[OF q1(2)] dot_step[OF q2(2)] dot_step[OF q3(2)]
  have l1: "q1 \<in> set (ends U True host_label s a)" by (rule digits_label[OF asc q1(1)])
  have h1: "q2 \<in> set (?H q1)" using q1(2) digits_label[OF asc q2(1)] by auto
  have h2: "q3 \<in> set (?H q2)" using q2(2) digits_label[OF asc q3(1)] by auto
  have h3: "b \<in> set (?H q3)" using q3(2) digits_label[OF asc d4] by auto
  have i0: "iter ?H ?n 0 b b" by simp
  have i1: "iter ?H ?n (Suc 0) q3 b"
  proof (rule iter_SucI[OF h3 _ bn i0])
    show "q3 < b" using lt ge by simp
  qed
  have i2: "iter ?H ?n (Suc (Suc 0)) q2 b"
  proof (rule iter_SucI[OF h2 _ _ i1])
    show "q2 < q3" using lt ge by simp
    show "q3 \<le> ?n" using lt ge bn by simp
  qed
  have i3: "iter ?H ?n (Suc (Suc (Suc 0))) q1 b"
  proof (rule iter_SucI[OF h1 _ _ i2])
    show "q1 < q2" using lt ge by simp
    show "q2 \<le> ?n" using lt ge bn by simp
  qed
  then have "b \<in> set (ends U True (Rep 1 None (Seq dot_rx host_label)) s q1)"
    by (auto simp: rep_ends_iff intro!: exI[of _ "Suc (Suc (Suc 0))"])
  with l1 wa wb show ?thesis
    by (auto simp: host_rx_alt)
qed

lemma ip_search_host:
  assumes "ascii_digits U s" "re_search U True ip_rx s"
  shows "re_search U True host_rx s"
proof -
  from assms(2) obtain a b where ab: "a \<le> length s" "b \<in> set (ends U True ip_rx s a)"
    by (auto simp: re_search_iff)
  from ip_is_host[OF assms(1) ab] ab(1) show ?thesis
    unfolding re_search_iff by blast
qed

lemma final_no_ip:
  assumes "ascii_digits U txt"
  shows "\<not> re_search U True ip_rx (text_of (sanitize_text U txt))"
  using ip_search_host[OF final_digits[OF assms]] final_no_host by blast

lemma after_id_no_ip:
  assumes "ascii_digits U txt"
  shows "\<not> re_search U True ip_rx (after_id U txt)"
  using ip_search_host[OF after_id_digits[OF assms]] after_id_no_host by blast

section \<open>A second run of the redactor\<close>

lemma trace_rx_props:
  "nonnull trace_rx" "\<not> has_wb trace_rx" "\<not> consumes U False trace_rx 10"
  "\<not> consumes U False trace_rx 91" "\<not> consumes U False trace_rx 93"
  by (simp_all add: trace_rx_def ascii_def)

lemma placeholders_no_trace:
  "\<not> re_search U False trace_rx (ascii ''[redacted-ip]'')"
  "\<not> re_search U False trace_rx (ascii ''[redacted-email]'')"
  "\<not> re_search U False trace_rx (ascii ''[redacted-host]'')"
  "\<not> re_search U False trace_rx (ascii ''[redacted-id]'')"
  by code_simp+

lemma ip_placeholder_clean:
  "\<not> re_search U True email_rx (ascii ''[redacted-ip]'')"
  "\<not> re_search U True host_rx (ascii ''[redacted-ip]'')"
  by code_simp+

text \<open>A match inside a line of a text is a match in the text.\<close>

lemma line_search:
  assumes l: "l \<in> set (splitlines s)" and m: "re_search U ic Q l"
  shows "re_search U ic Q s"
proof -
  from splitlines_segment[OF l] obtain pre post where q: "s = pre @ l @ post"
      "pre = [] \<or> is_linebreak (last pre)" "post = [] \<or> is_linebreak (hd post)"
    by blast
  from q(2,3) have ctx: "\<not> word_before U pre" "\<not> word_after U post"
    by (auto intro!: word_before_break word_after_break)
  from m obtain a b where a: "a \<le> length l" and mem: "b \<in> set (ends U ic Q l a)"
    by (auto simp: re_search_iff)
  from ends_ge[OF mem] ends_le[OF mem a] have ab: "a \<le> b" "b \<le> length l" .
  have L: "has_wb Q \<longrightarrow> (0 :: nat) = 0 \<longrightarrow> word_before U [] = word_before U pre"
    using ctx by (simp add: word_before_def)
  have R: "has_wb Q \<longrightarrow> length l = length l \<longrightarrow> word_after U [] = word_after U post"
    using ctx by (simp add: word_after_def)
  have "length ([] :: pystr) + b \<in> set (ends U ic Q ([] @ l @ []) (length ([] :: pystr) + a))"
    using mem by simp
  from ends_local_imp[OF L R _ ab(1) ab(2) _ this]
  have "length pre + b \<in> set (ends U ic Q s (length pre + a))"
    by (simp add: q(1))
  moreover have "length pre + a \<le> length s" using a q(1) by simp
  ultimately show ?thesis by (auto simp: re_search_iff)
qed

text \<open>
  Joining lines with line feeds creates no match of a pattern that cannot span a line
  feed, if no line has a match.
\<close>

lemma lines_join_clean:
  assumes nm: "\<forall>l\<in>set fl. \<not> re_search U ic Q l" and nq: "nonnull Q" and c10: "\<not> consumes U ic Q 10"
  shows "\<not> re_search U ic Q (join [10] fl)"
proof
  let ?x = "join [10] fl"
  assume "re_search U ic Q ?x"
  then obtain a b where ax: "a \<le> length ?x" and mem: "b \<in> set (ends U ic Q ?x a)"
    by (auto simp: re_search_iff)
  from ends_nonnull[OF nq mem] have ab: "a < b" .
  from ends_le[OF mem ax] have bx: "b \<le> length ?x" .
  have no10: "\<forall>k. a \<le> k \<and> k < b \<longrightarrow> ?x ! k \<noteq> 10"
    using ends_consumes[OF mem] c10 by metis
  from join_span[OF ab bx no10] obtain pre l post where p: "?x = pre @ l @ post" "l \<in> set fl"
      "pre = [] \<or> last pre = 10" "post = [] \<or> hd post = 10"
      "length pre \<le> a" "b \<le> length pre + length l"
    by blast
  have lb10: "is_linebreak 10" by (simp add: is_linebreak_def)
  from p(3,4) lb10 have ctx: "\<not> word_before U pre" "\<not> word_after U post"
    by (auto intro!: word_before_break word_after_break)
  define a0 where "a0 = a - length pre"
  define b0 where "b0 = b - length pre"
  have ab0: "a = length pre + a0" "b = length pre + b0" "a0 \<le> b0" "b0 \<le> length l"
    using p(5,6) ab by (simp_all add: a0_def b0_def)
  have L: "has_wb Q \<longrightarrow> (0 :: nat) = 0 \<longrightarrow> word_before U pre = word_before U []"
    using ctx by (simp add: word_before_def)
  have R: "has_wb Q \<longrightarrow> length l = length l \<longrightarrow> word_after U post = word_after U []"
    using ctx by (simp add: word_after_def)
  have "length pre + b0 \<in> set (ends U ic Q (pre @ l @ post) (length pre + a0))"
    using mem ab0 p(1) by simp
  from ends_local_imp[OF L R _ ab0(3) ab0(4) _ this]
  have "b0 \<in> set (ends U ic Q l a0)"
    by simp
  moreover have "a0 \<le> length l" using ab0 by simp
  ultimately have "re_search U ic Q l" by (auto simp: re_search_iff)
  with nm p(2) show False by simp
qed

text \<open>The text of a run holds none of the six markers of the line filter.\<close>

lemma final_no_trace: "\<not> re_search U False trace_rx (text_of (sanitize_text U txt))"
  unfolding sanitize_text_text
  by (rule lines_join_clean) (simp_all add: trace_rx_props)

lemma rules_keep_no_trace:
  assumes "\<not> re_search U False trace_rx t"
  shows "\<not> re_search U False trace_rx (after_id U t)"
proof -
  have 1: "\<not> re_search U False trace_rx (after_ip U t)"
    unfolding after_ip_def
    by (rule re_sub_clean[OF rules_nonnull(1) trace_rx_props(1) placeholders_shape(1)
          trace_rx_props(4,5) placeholders_no_trace(1)]) (simp_all add: trace_rx_props assms)
  have 2: "\<not> re_search U False trace_rx (after_email U t)"
    unfolding after_email_def
    by (rule re_sub_clean[OF rules_nonnull(2) trace_rx_props(1) placeholders_shape(2)
          trace_rx_props(4,5) placeholders_no_trace(2)]) (simp_all add: trace_rx_props 1)
  have 3: "\<not> re_search U False trace_rx (after_host U t)"
    unfolding after_host_def
    by (rule re_sub_clean[OF rules_nonnull(3) trace_rx_props(1) placeholders_shape(3)
          trace_rx_props(4,5) placeholders_no_trace(3)]) (simp_all add: trace_rx_props 2)
  show ?thesis
    unfolding after_id_def
    by (rule re_sub_clean[OF rules_nonnull(4) trace_rx_props(1) placeholders_shape(4)
          trace_rx_props(4,5) placeholders_no_trace(4)]) (simp_all add: trace_rx_props 3)
qed

lemma no_trace_lines:
  assumes "\<not> re_search U False trace_rx s"
  shows "filter (re_search U False trace_rx) (splitlines s) = []"
    and "filter (\<lambda>l. \<not> re_search U False trace_rx l) (splitlines s) = splitlines s"
proof -
  have "\<forall>l\<in>set (splitlines s). \<not> re_search U False trace_rx l"
    using line_search[of _ s U False trace_rx] assms by blast
  then show "filter (re_search U False trace_rx) (splitlines s) = []"
    and "filter (\<lambda>l. \<not> re_search U False trace_rx l) (splitlines s) = splitlines s"
    by (simp_all add: filter_empty_conv)
qed

text \<open>
  A run on a text without markers drops no line; this holds for the text of a first run.
\<close>

lemma sanitize_text_no_trace:
  assumes "\<not> re_search U False trace_rx t"
  shows "sanitize_text U t
     = \<lparr>text_of = join [10] (splitlines (after_id U t)), notes_of = snd (apply_rules U rules t [])\<rparr>"
  unfolding sanitize_text_eq no_trace_lines[OF rules_keep_no_trace[OF assms]] by simp

lemma after_ip_keeps:
  assumes "\<not> re_search U True email_rx t" "\<not> re_search U True host_rx t"
  shows "\<not> re_search U True email_rx (after_ip U t)" "\<not> re_search U True host_rx (after_ip U t)"
proof -
  show "\<not> re_search U True email_rx (after_ip U t)"
    unfolding after_ip_def
    by (rule re_sub_clean[OF rules_nonnull(1) rules_nonnull(2) placeholders_shape(1)
          rules_no_brackets(3,4) ip_placeholder_clean(1)]) (simp_all add: rules_wb assms)
  show "\<not> re_search U True host_rx (after_ip U t)"
    unfolding after_ip_def
    by (rule re_sub_clean[OF rules_nonnull(1) rules_nonnull(3) placeholders_shape(1)
          rules_no_brackets(5,6) ip_placeholder_clean(2)]) (simp_all add: rules_wb assms)
qed

lemma fired_False: "fired False label = []"
  by (simp add: fired_def)

text \<open>The rules on a text in which the email and the hostname pattern do not match.\<close>

lemma rules_again:
  assumes "\<not> re_search U True email_rx t" "\<not> re_search U True host_rx t"
  shows "apply_rules U rules t [] =
     (re_sub U True id_rx (ascii ''[redacted-id]'') (after_ip U t),
      fired (re_search U True ip_rx t) ''ip''
      @ fired (re_search U True id_rx (after_ip U t)) ''internal-id'')"
proof -
  note k = after_ip_keeps[OF assms]
  have 2: "after_email U t = after_ip U t" by (simp add: after_email_def re_sub_no_match k)
  have 3: "after_host U t = after_ip U t" by (simp add: after_host_def 2 re_sub_no_match k)
  show ?thesis
    by (simp add: apply_rules_rules after_id_def 2 3 k fired_False)
qed

lemma second_run:
  "sanitize_text U (text_of (sanitize_text U txt))
     = \<lparr>text_of = join [10] (splitlines (re_sub U True id_rx (ascii ''[redacted-id]'')
                                 (after_ip U (text_of (sanitize_text U txt))))),
        notes_of = fired (re_search U True ip_rx (text_of (sanitize_text U txt))) ''ip''
                   @ fired (re_search U True id_rx (after_ip U (text_of (sanitize_text U txt)))) ''internal-id''\<rparr>"
proof -
  let ?out = "text_of (sanitize_text U txt)"
  note r = rules_again[OF final_no_email final_no_host, of U "txt"]
  have "after_id U ?out = fst (apply_rules U rules ?out [])" by (simp add: apply_rules_rules)
  then have a: "after_id U ?out = re_sub U True id_rx (ascii ''[redacted-id]'') (after_ip U ?out)"
    by (simp add: r)
  show ?thesis
    unfolding sanitize_text_no_trace[OF final_no_trace] a r by simp
qed

lemma second_run_digits:
  assumes "ascii_digits U txt"
  shows "sanitize_text U (text_of (sanitize_text U txt))
     = \<lparr>text_of = join [10] (splitlines (re_sub U True id_rx (ascii ''[redacted-id]'')
                                 (text_of (sanitize_text U txt)))),
        notes_of = fired (re_search U True id_rx (text_of (sanitize_text U txt))) ''internal-id''\<rparr>"
proof -
  have "after_ip U (text_of (sanitize_text U txt)) = text_of (sanitize_text U txt)"
    by (simp add: after_ip_def re_sub_no_match final_no_ip[OF assms])
  then show ?thesis
    using second_run[of U "txt"] final_no_ip[OF assms, of ] by (simp add: fired_False)
qed

section \<open>Lines split and joined again\<close>

lemma splitlines_from_clean:
  "l \<in> set (splitlines_from cur s) \<Longrightarrow> \<forall>c\<in>set cur. \<not> is_linebreak c \<Longrightarrow> \<forall>c\<in>set l. \<not> is_linebreak c"
proof (induction cur s rule: splitlines_from.induct)
  case (1 cur)
  then show ?case by (auto split: if_splits)
next
  case (2 cur c cs)
  have nl: "\<forall>c\<in>set []. \<not> is_linebreak (c :: nat)" by simp
  have lb13: "is_linebreak 13" by (simp add: is_linebreak_def)
  show ?case
  proof (cases "c = 13")
    case c13: True
    show ?thesis
    proof (cases cs)
      case Nil
      with "2.prems" c13 consider "l = cur" | "l \<in> set (splitlines_from [] cs)"
        by auto
      then show ?thesis
      proof cases
        case 1
        with "2.prems" show ?thesis by simp
      next
        case 2
        from "2.IH"(1)[OF c13 Nil 2 nl] show ?thesis .
      qed
    next
      case (Cons d ds)
      show ?thesis
      proof (cases "d = 10")
        case d10: True
        with "2.prems" c13 Cons consider "l = cur" | "l \<in> set (splitlines_from [] ds)"
          by auto
        then show ?thesis
        proof cases
          case 1
          with "2.prems" show ?thesis by simp
        next
          case 2
          from "2.IH"(2)[OF c13 Cons d10 2 nl] show ?thesis .
        qed
      next
        case dn: False
        with "2.prems" c13 Cons consider "l = cur" | "l \<in> set (splitlines_from [] cs)"
          by auto
        then show ?thesis
        proof cases
          case 1
          with "2.prems" show ?thesis by simp
        next
          case 2
          from "2.IH"(3)[OF c13 Cons dn 2 nl] show ?thesis .
        qed
      qed
    qed
  next
    case cn: False
    show ?thesis
    proof (cases "is_linebreak c")
      case lb: True
      with "2.prems" cn consider "l = cur" | "l \<in> set (splitlines_from [] cs)"
        by auto
      then show ?thesis
      proof cases
        case 1
        with "2.prems" show ?thesis by simp
      next
        case 2
        from "2.IH"(4)[OF cn lb 2 nl] show ?thesis .
      qed
    next
      case nlb: False
      with "2.prems" cn have m: "l \<in> set (splitlines_from (cur @ [c]) cs)"
        and n: "\<forall>c\<in>set (cur @ [c]). \<not> is_linebreak c"
        by auto
      from "2.IH"(5)[OF cn nlb m n] show ?thesis .
    qed
  qed
qed

lemma splitlines_clean: "l \<in> set (splitlines s) \<Longrightarrow> \<forall>c\<in>set l. \<not> is_linebreak c"
  using splitlines_from_clean[of l "[]" s] by (simp add: splitlines_def)

lemma splitlines_from_app:
  "\<forall>c\<in>set x. \<not> is_linebreak c \<Longrightarrow> splitlines_from cur (x @ r) = splitlines_from (cur @ x) r"
proof (induction x arbitrary: cur)
  case Nil
  then show ?case by simp
next
  case (Cons c x)
  then have nlb: "\<not> is_linebreak c" by simp
  then have "c \<noteq> 13" by (auto simp: is_linebreak_def)
  with nlb have "splitlines_from cur ((c # x) @ r) = splitlines_from (cur @ [c]) (x @ r)"
    by simp
  also have "\<dots> = splitlines_from ((cur @ [c]) @ x) r"
    using Cons by simp
  finally show ?case by simp
qed

lemma splitlines_from_feed: "splitlines_from cur (10 # r) = cur # splitlines_from [] r"
  by (simp add: is_linebreak_def)

lemma splitlines_from_join:
  "\<forall>l\<in>set ls. \<forall>c\<in>set l. \<not> is_linebreak c \<Longrightarrow> ls \<noteq> [] \<Longrightarrow> last ls \<noteq> [] \<Longrightarrow>
   splitlines_from cur (join [10] ls) = (cur @ hd ls) # tl ls"
proof (induction "[10 :: nat]" ls arbitrary: cur rule: join.induct)
  case 1
  then show ?case by simp
next
  case (2 x)
  then have "splitlines_from cur (x @ []) = splitlines_from (cur @ x) []"
    by (intro splitlines_from_app) simp
  with 2 show ?case by simp
next
  case (3 x y ys)
  have "splitlines_from cur (x @ 10 # join [10] (y # ys)) = splitlines_from (cur @ x) (10 # join [10] (y # ys))"
    using 3(2) by (intro splitlines_from_app) simp
  also have "\<dots> = (cur @ x) # splitlines_from [] (join [10] (y # ys))"
    by (rule splitlines_from_feed)
  also have "splitlines_from [] (join [10] (y # ys)) = ([] @ hd (y # ys)) # tl (y # ys)"
    using 3(2,4) by (intro 3(1)) simp_all
  finally show ?case by simp
qed

lemma join_ends_feed:
  "ls \<noteq> [] \<Longrightarrow> last ls = [] \<Longrightarrow> join [10] ls = [] \<or> last (join [10] ls) = 10"
proof (induction "[10 :: nat]" ls rule: join.induct)
  case 1
  then show ?case by simp
next
  case (2 x)
  then show ?case by simp
next
  case (3 x y ys)
  then show ?case by (cases "join [10] (y # ys) = []") simp_all
qed

lemma join_snoc_empty: "ks \<noteq> [] \<Longrightarrow> join [10] (ks @ [[]]) = join [10] ks @ [10]"
proof (induction "[10 :: nat]" ks rule: join.induct)
  case 1
  then show ?case by simp
next
  case (2 x)
  then show ?case by simp
next
  case (3 x y ys)
  then show ?case by simp
qed

lemma join_last:
  "ls \<noteq> [] \<Longrightarrow> last ls \<noteq> [] \<Longrightarrow> join [10] ls \<noteq> [] \<and> last (join [10] ls) = last (last ls)"
proof (induction "[10 :: nat]" ls rule: join.induct)
  case 1
  then show ?case by simp
next
  case (2 x)
  then show ?case by simp
next
  case (3 x y ys)
  then show ?case by simp
qed

lemma splitlines_from_join_empty:
  "\<forall>l\<in>set ls. \<forall>c\<in>set l. \<not> is_linebreak c \<Longrightarrow> ls \<noteq> [] \<Longrightarrow> last ls = [] \<Longrightarrow>
   splitlines_from cur (join [10] ls)
     = (if tl ls = [] then (if cur = [] then [] else [cur]) else (cur @ hd ls) # butlast (tl ls))"
proof (induction "[10 :: nat]" ls arbitrary: cur rule: join.induct)
  case 1
  then show ?case by simp
next
  case (2 x)
  then show ?case by simp
next
  case (3 x y ys)
  have "splitlines_from cur (x @ 10 # join [10] (y # ys)) = splitlines_from (cur @ x) (10 # join [10] (y # ys))"
    using 3(2) by (intro splitlines_from_app) simp
  also have "\<dots> = (cur @ x) # splitlines_from [] (join [10] (y # ys))"
    by (rule splitlines_from_feed)
  also have "splitlines_from [] (join [10] (y # ys))
      = (if tl (y # ys) = [] then (if ([] :: pystr) = [] then [] else [[]]) else ([] @ hd (y # ys)) # butlast (tl (y # ys)))"
    using 3(2,4) by (intro 3(1)) simp_all
  finally show ?case by simp
qed

text \<open>
  Splitting the text of a run into lines and joining them again gives the text back, unless
  the text ends with a line feed (its last line is empty): then the line feed is lost.
\<close>

lemma split_join_final:
  "join [10] (splitlines (text_of (sanitize_text U txt))) = text_of (sanitize_text U txt)
     \<longleftrightarrow> (text_of (sanitize_text U txt) = [] \<or> last (text_of (sanitize_text U txt)) \<noteq> 10)"
proof (cases "text_of (sanitize_text U txt) = []")
  case True
  then show ?thesis by (simp add: splitlines_def)
next
  case False
  let ?ls = "filter (\<lambda>l. \<not> re_search U False trace_rx l) (splitlines (after_id U txt))"
  have out: "text_of (sanitize_text U txt) = join [10] ?ls" by (rule sanitize_text_text)
  from False out have ne: "?ls \<noteq> []" by auto
  have cl: "\<forall>l\<in>set ?ls. \<forall>c\<in>set l. \<not> is_linebreak c"
    using splitlines_clean by auto
  have lb10: "is_linebreak 10" by (simp add: is_linebreak_def)
  show ?thesis
  proof (cases "last ?ls = []")
    case la: False
    have "splitlines (join [10] ?ls) = hd ?ls # tl ?ls"
      using splitlines_from_join[OF cl ne la, of "[]"] by (simp add: splitlines_def)
    with ne have same: "join [10] (splitlines (join [10] ?ls)) = join [10] ?ls" by simp
    from join_last[OF ne la] have "last (join [10] ?ls) = last (last ?ls)" by simp
    moreover have "last (last ?ls) \<in> set (last ?ls)" by (rule last_in_set[OF la])
    moreover have "last ?ls \<in> set ?ls" by (rule last_in_set[OF ne])
    ultimately have "\<not> is_linebreak (last (join [10] ?ls))" using cl by metis
    with lb10 have "last (join [10] ?ls) \<noteq> 10" by auto
    with same show ?thesis by (simp add: out)
  next
    case la: True
    have tl: "tl ?ls \<noteq> []"
    proof
      assume "tl ?ls = []"
      with ne la have "?ls = [[]]" by (cases ?ls) simp_all
      then have "join [10] ?ls = []" by simp
      with False out show False by simp
    qed
    have "splitlines (join [10] ?ls) = hd ?ls # butlast (tl ?ls)"
      using splitlines_from_join_empty[OF cl ne la, of "[]"] tl by (simp add: splitlines_def)
    also have "\<dots> = butlast ?ls" using ne tl by (cases ?ls) simp_all
    finally have sp: "splitlines (join [10] ?ls) = butlast ?ls" .
    have bl: "butlast ?ls \<noteq> []" using ne tl by (cases ?ls) simp_all
    have "?ls = butlast ?ls @ [[]]" using ne la append_butlast_last_id[of ?ls] by simp
    then have "join [10] ?ls = join [10] (butlast ?ls @ [[]])" by simp
    also have "\<dots> = join [10] (butlast ?ls) @ [10]" by (rule join_snoc_empty[OF bl])
    finally have j: "join [10] ?ls = join [10] (butlast ?ls) @ [10]" .
    have "join [10] (splitlines (join [10] ?ls)) \<noteq> join [10] ?ls"
      unfolding sp using j by simp
    moreover have "last (join [10] ?ls) = 10" using j by simp
    ultimately show ?thesis using False by (simp add: out)
  qed
qed

section \<open>Dotted quads\<close>








section \<open>What the sanitized text can still contain\<close>


text \<open>
  A second gap concerns digits outside ASCII, which \<^verbatim>\<open>\d\<close> accepts and the character
  set of the hostname pattern does not. \<open>arabic_db\<close> states what the Unicode database says
  about the Arabic-Indic digits, code points 1632 to 1641: they are decimal digits and word
  characters. After the e-mail address is replaced, the dotted quad of such digits that
  followed it stands at a word boundary; it matches the ip pattern and no later rule
  removes it.
\<close>

definition arabic_db :: unicode_db where
  "arabic_db = \<lparr>uni_word = (\<lambda>c. 1632 \<le> c \<and> c \<le> 1641), uni_space = (\<lambda>c. False),
                uni_digit = (\<lambda>c. 1632 \<le> c \<and> c \<le> 1641), uni_caseless = (\<lambda>it c. False),
                uni_lower = (\<lambda>s. s), uni_upper = (\<lambda>s. s)\<rparr>"

lemma non_ascii_ip_remains:
  "sanitize_text arabic_db (ascii ''a@b.cd'' @ [1633, 46, 1634, 46, 1635, 46, 1636])
     = \<lparr>text_of = ascii ''[redacted-email]'' @ [1633, 46, 1634, 46, 1635, 46, 1636],
        notes_of = [\<lparr>token = ascii ''email'', action = ascii ''redacted''\<rparr>]\<rparr>
   \<and> re_search arabic_db True ip_rx (ascii ''[redacted-email]'' @ [1633, 46, 1634, 46, 1635, 46, 1636])"
  by code_simp

text \<open>
  A match is what \<^verbatim>\<open>re.search\<close> finds for the whole pattern. The ip, the hostname and the
  internal-id pattern begin and end with \<^verbatim>\<open>\b\<close>, so whether a stretch of text is a match
  depends on the characters next to it, and the underscore is a word character. In
  \<open>_db01.corp.local_\<close> no \<^verbatim>\<open>\b\<close> holds at the ends of the host name: the text is returned
  as it is, with no note, although \<open>db01.corp.local\<close> alone is a match. In \<open>v1.2.3.4\<close>
  no \<^verbatim>\<open>\b\<close> holds between \<open>v\<close> and \<open>1\<close>: the ip pattern does not match, the hostname
  pattern does, and the only note is \<open>hostname\<close>, although \<open>1.2.3.4\<close> alone is a match
  of the ip pattern.
\<close>

lemma word_boundary_examples:
  "sanitize_text plain_db (ascii ''_db01.corp.local_'')
     = \<lparr>text_of = ascii ''_db01.corp.local_'', notes_of = []\<rparr>"
  "re_search plain_db True host_rx (ascii ''db01.corp.local'')"
  "sanitize_text plain_db (ascii ''v1.2.3.4'')
     = \<lparr>text_of = ascii ''[redacted-host]'',
        notes_of = [\<lparr>token = ascii ''hostname'', action = ascii ''redacted''\<rparr>]\<rparr>"
  "\<not> re_search plain_db True ip_rx (ascii ''v1.2.3.4'')"
  "re_search plain_db True ip_rx (ascii ''1.2.3.4'')"
  by code_simp+





section \<open>Running the redactor again\<close>

text \<open>
  C10 does not hold as stated. The first run on \<open>ticket id\<close>, \<open>Error: x\<close>, \<open>pending\<close>
  returns \<open>ticket id\<close> and \<open>pending\<close> on two lines; the second run, on that text, matches
  the internal-id rule: it returns a different text and one more note.
\<close>

theorem second_run_counterexample:
  "text_of (sanitize_text plain_db (ascii ''ticket id'' @ [10] @ ascii ''Error: x'' @ [10] @ ascii ''pending''))
     = ascii ''ticket id'' @ [10] @ ascii ''pending''
   \<and> sanitize_text plain_db (ascii ''ticket id'' @ [10] @ ascii ''pending'')
     = \<lparr>text_of = ascii ''ticket [redacted-id]'',
        notes_of = [\<lparr>token = ascii ''internal-id'', action = ascii ''redacted''\<rparr>]\<rparr>
   \<and> ascii ''ticket [redacted-id]'' \<noteq> ascii ''ticket id'' @ [10] @ ascii ''pending''"
  by code_simp

text \<open>
  Two more ways in which a second run differs from the first. The text of a run can end
  with a line feed, when its last line is empty; the next run drops that line feed, with no
  note. And with decimal digits outside ASCII the text of a run can contain a match of the
  ip pattern (\<open>non_ascii_ip_remains\<close>), which the next run replaces, with a note.
\<close>

lemma blank_line_lost:
  "sanitize_text plain_db (ascii ''a'' @ [10, 10]) = \<lparr>text_of = ascii ''a'' @ [10], notes_of = []\<rparr>"
  "sanitize_text plain_db (ascii ''a'' @ [10]) = \<lparr>text_of = ascii ''a'', notes_of = []\<rparr>"
  by code_simp+

lemma non_ascii_second_run:
  "sanitize_text arabic_db (ascii ''[redacted-email]'' @ [1633, 46, 1634, 46, 1635, 46, 1636])
     = \<lparr>text_of = ascii ''[redacted-email][redacted-ip]'',
        notes_of = [\<lparr>token = ascii ''ip'', action = ascii ''redacted''\<rparr>]\<rparr>"
  by code_simp

lemma second_run_same:
  "sanitize_text U (text_of (sanitize_text U txt)) = \<lparr>text_of = text_of (sanitize_text U txt), notes_of = []\<rparr>
     \<longleftrightarrow> \<not> re_search U True ip_rx (text_of (sanitize_text U txt))
          \<and> \<not> re_search U True id_rx (text_of (sanitize_text U txt))
          \<and> (text_of (sanitize_text U txt) = [] \<or> last (text_of (sanitize_text U txt)) \<noteq> 10)"
proof (cases "re_search U True ip_rx (text_of (sanitize_text U txt))")
  case True
  then show ?thesis
    unfolding second_run[of U "txt"] by (simp add: fired_def)
next
  case nip: False
  then have a: "after_ip U (text_of (sanitize_text U txt)) = text_of (sanitize_text U txt)"
    by (simp add: after_ip_def re_sub_no_match)
  show ?thesis
  proof (cases "re_search U True id_rx (text_of (sanitize_text U txt))")
    case True
    then show ?thesis
      unfolding second_run[of U "txt"] a by (simp add: fired_def)
  next
    case nid: False
    show ?thesis
      unfolding second_run[of U "txt"] a re_sub_no_match[OF nid]
      using nip nid split_join_final[of U "txt"] by (simp add: fired_False)
  qed
qed

lemma rules_same:
  "apply_rules U rules (after_id U txt) [] = (after_id U txt, [])
     \<longleftrightarrow> \<not> re_search U True ip_rx (after_id U txt)"
proof (cases "re_search U True ip_rx (after_id U txt)")
  case True
  then show ?thesis
    unfolding rules_again[OF after_id_no_email after_id_no_host] by (simp add: fired_def)
next
  case False
  then have "after_ip U (after_id U txt) = after_id U txt"
    by (simp add: after_ip_def re_sub_no_match)
  with False show ?thesis
    unfolding rules_again[OF after_id_no_email after_id_no_host]
    using after_id_clean[of U "txt"] by (simp add: re_sub_no_match fired_False)
qed

text \<open>
  C10, amended. The four redaction rules, run again on the text they produced, leave it
  unchanged and produce no note exactly when the ip pattern does not match in that text;
  this is so whenever the only decimal digits of the input are the ASCII digits. For
  \<open>sanitize_text\<close> as a whole and every input, a second run on the text of a first run never
  produces an \<open>email\<close>, a \<open>hostname\<close> or a \<open>stack-trace-line\<close> note: its notes are an
  \<open>ip\<close> note if the ip pattern matches in that text, then an \<open>internal-id\<close> note if the
  internal-id pattern matches after the ip rule. If the only decimal digits of the input
  are the ASCII digits, there is no \<open>ip\<close> note either: the notes of the second run are one
  \<open>internal-id\<close> note if the internal-id pattern matches in the text of the first run, and
  no note otherwise. The second run returns the same text and no note exactly when neither
  the ip nor the internal-id pattern matches in the text of the first run and that text
  does not end with a line feed.
\<close>

theorem rules_idempotent:
  "(apply_rules U rules (fst (apply_rules U rules txt [])) [] = (fst (apply_rules U rules txt []), [])
      \<longleftrightarrow> \<not> re_search U True ip_rx (fst (apply_rules U rules txt [])))
   \<and> (ascii_digits U txt \<longrightarrow>
        apply_rules U rules (fst (apply_rules U rules txt [])) [] = (fst (apply_rules U rules txt []), []))
   \<and> notes_of (sanitize_text U (text_of (sanitize_text U txt)))
       = fired (re_search U True ip_rx (text_of (sanitize_text U txt))) ''ip''
         @ fired (re_search U True id_rx (after_ip U (text_of (sanitize_text U txt)))) ''internal-id''
   \<and> (ascii_digits U txt \<longrightarrow>
        notes_of (sanitize_text U (text_of (sanitize_text U txt)))
          = fired (re_search U True id_rx (text_of (sanitize_text U txt))) ''internal-id'')
   \<and> (sanitize_text U (text_of (sanitize_text U txt))
          = \<lparr>text_of = text_of (sanitize_text U txt), notes_of = []\<rparr>
        \<longleftrightarrow> \<not> re_search U True ip_rx (text_of (sanitize_text U txt))
             \<and> \<not> re_search U True id_rx (text_of (sanitize_text U txt))
             \<and> (text_of (sanitize_text U txt) = [] \<or> last (text_of (sanitize_text U txt)) \<noteq> 10))
   \<and> (ascii_digits U txt \<longrightarrow> \<not> re_search U True ip_rx (text_of (sanitize_text U txt)))"
proof -
  have f: "fst (apply_rules U rules txt []) = after_id U txt"
    by (simp add: apply_rules_rules)
  have 1: "apply_rules U rules (fst (apply_rules U rules txt [])) [] = (fst (apply_rules U rules txt []), [])
      \<longleftrightarrow> \<not> re_search U True ip_rx (fst (apply_rules U rules txt []))"
    unfolding f by (rule rules_same)
  have 2: "apply_rules U rules (fst (apply_rules U rules txt [])) [] = (fst (apply_rules U rules txt []), [])"
    if "ascii_digits U txt"
    using 1 after_id_no_ip[OF that] unfolding f by blast
  have 3: "notes_of (sanitize_text U (text_of (sanitize_text U txt)))
       = fired (re_search U True ip_rx (text_of (sanitize_text U txt))) ''ip''
         @ fired (re_search U True id_rx (after_ip U (text_of (sanitize_text U txt)))) ''internal-id''"
    unfolding second_run[of U "txt"] by simp
  have 4: "notes_of (sanitize_text U (text_of (sanitize_text U txt)))
          = fired (re_search U True id_rx (text_of (sanitize_text U txt))) ''internal-id''"
    if "ascii_digits U txt"
    unfolding second_run_digits[OF that] by simp
  from 1 2 3 4 second_run_same[of U "txt"] final_no_ip[of U "txt"] show ?thesis by blast
qed

lemma mixed_input:
  "ascii_digits plain_db (ascii ''ID: ab12cd34 10.0.0.1 a@b.io'')"
  "sanitize_text plain_db (ascii ''ID: ab12cd34 10.0.0.1 a@b.io'')
     = \<lparr>text_of = ascii ''[redacted-id] [redacted-ip] [redacted-email]'',
        notes_of = [\<lparr>token = ascii ''ip'', action = ascii ''redacted''\<rparr>,
                    \<lparr>token = ascii ''email'', action = ascii ''redacted''\<rparr>,
                    \<lparr>token = ascii ''internal-id'', action = ascii ''redacted''\<rparr>]\<rparr>"
  "fst (apply_rules plain_db rules (ascii ''ID: ab12cd34 10.0.0.1 a@b.io'') [])
     = ascii ''[redacted-id] [redacted-ip] [redacted-email]''"
  "\<not> re_search plain_db True id_rx (ascii ''[redacted-id] [redacted-ip] [redacted-email]'')"
  "last (ascii ''[redacted-id] [redacted-ip] [redacted-email]'') \<noteq> 10"
  by code_simp+

theorem rules_idempotent_witness:
  "apply_rules plain_db rules (ascii ''[redacted-id] [redacted-ip] [redacted-email]'') []
     = (ascii ''[redacted-id] [redacted-ip] [redacted-email]'', [])
   \<and> sanitize_text plain_db (ascii ''[redacted-id] [redacted-ip] [redacted-email]'')
     = \<lparr>text_of = ascii ''[redacted-id] [redacted-ip] [redacted-email]'', notes_of = []\<rparr>"
proof -
  note t = rules_idempotent[of plain_db "ascii ''ID: ab12cd34 10.0.0.1 a@b.io''"]
  have o: "text_of (sanitize_text plain_db (ascii ''ID: ab12cd34 10.0.0.1 a@b.io''))
      = ascii ''[redacted-id] [redacted-ip] [redacted-email]''"
    by (simp add: mixed_input(2))
  from t mixed_input(1)
  have "apply_rules plain_db rules (fst (apply_rules plain_db rules (ascii ''ID: ab12cd34 10.0.0.1 a@b.io'') [])) []
      = (fst (apply_rules plain_db rules (ascii ''ID: ab12cd34 10.0.0.1 a@b.io'') []), [])"
    by blast
  then have 1: "apply_rules plain_db rules (ascii ''[redacted-id] [redacted-ip] [redacted-email]'') []
     = (ascii ''[redacted-id] [redacted-ip] [redacted-email]'', [])"
    by (simp only: mixed_input(3))
  have p: "ascii_digits plain_db (ascii ''ID: ab12cd34 10.0.0.1 a@b.io'')
      \<and> \<not> re_search plain_db True id_rx (text_of (sanitize_text plain_db (ascii ''ID: ab12cd34 10.0.0.1 a@b.io'')))
      \<and> (text_of (sanitize_text plain_db (ascii ''ID: ab12cd34 10.0.0.1 a@b.io'')) = []
          \<or> last (text_of (sanitize_text plain_db (ascii ''ID: ab12cd34 10.0.0.1 a@b.io''))) \<noteq> 10)"
    unfolding o using mixed_input(1,4,5) by blast
  from t p have "sanitize_text plain_db (text_of (sanitize_text plain_db (ascii ''ID: ab12cd34 10.0.0.1 a@b.io'')))
      = \<lparr>text_of = text_of (sanitize_text plain_db (ascii ''ID: ab12cd34 10.0.0.1 a@b.io'')), notes_of = []\<rparr>"
    by blast
  then have 2: "sanitize_text plain_db (ascii ''[redacted-id] [redacted-ip] [redacted-email]'')
     = \<lparr>text_of = ascii ''[redacted-id] [redacted-ip] [redacted-email]'', notes_of = []\<rparr>"
    by (simp only: o)
  from 1 2 show ?thesis by blast
qed

end
